theory Spec2Isabelle
  imports Complex_Main "HOL-Library.Sublist"
begin

section \<open>Butler robot: the order-processing state machine of butler\_robot.py\<close>

text \<open>
  A shallow embedding of \<^verbatim>\<open>src/butler_robot/scripts/butler_robot.py\<close>. The class
  \<^verbatim>\<open>RobotButler\<close> becomes a record of its attributes; every method becomes a function
  from the record to the updated record. What the methods do to the outside (lock
  operations, writes of the shared attributes, goals sent to the navigation stack, threads
  started) is appended to an event trace kept in the record, so that the order of these
  effects can be stated. What the outside does to the methods (the terminal status of each
  navigation goal, the lines typed at each prompt, the clock, an interrupt) is read from a
  \<open>world\<close> record.
\<close>

subsection \<open>Python strings\<close>

text \<open>
  Strings are lists of characters with code points below 256. \<^verbatim>\<open>str.isspace\<close> holds
  below 256 exactly for 9..13, 28..32, 133 and 160; \<^verbatim>\<open>str.lower\<close> adds 32 to A..Z and to
  192..222 except 215, which is setting bit 5.
\<close>

definition py_isspace :: "char \<Rightarrow> bool" where
  "py_isspace c =
     (let n = (of_char c :: nat)
      in (9 \<le> n \<and> n \<le> 13) \<or> (28 \<le> n \<and> n \<le> 32) \<or> n = 133 \<or> n = 160)"

definition py_strip :: "string \<Rightarrow> string" where
  "py_strip s = rev (dropWhile py_isspace (rev (dropWhile py_isspace s)))"

fun lower_char :: "char \<Rightarrow> char" where
  "lower_char (Char b0 b1 b2 b3 b4 b5 b6 b7) =
     (let n = (of_char (Char b0 b1 b2 b3 b4 b5 b6 b7) :: nat)
      in if (65 \<le> n \<and> n \<le> 90) \<or> (192 \<le> n \<and> n \<le> 222 \<and> n \<noteq> 215)
         then Char b0 b1 b2 b3 b4 True b6 b7
         else Char b0 b1 b2 b3 b4 b5 b6 b7)"

definition py_lower :: "string \<Rightarrow> string" where
  "py_lower s = map lower_char s"

text \<open>\<^verbatim>\<open>s.split(sep)\<close> for a one-character separator: never the empty list.\<close>

fun py_split :: "char \<Rightarrow> string \<Rightarrow> string list" where
  "py_split sep [] = [[]]"
| "py_split sep (c # cs) =
     (if c = sep then [] # py_split sep cs
      else case py_split sep cs of
             w # ws \<Rightarrow> (c # w) # ws
           | [] \<Rightarrow> [[c]])"

fun starts_with :: "string \<Rightarrow> string \<Rightarrow> bool" where
  "starts_with [] s = True"
| "starts_with (p # ps) [] = False"
| "starts_with (p # ps) (c # cs) = (p = c \<and> starts_with ps cs)"

text \<open>\<^verbatim>\<open>sub in s\<close> on strings: \<open>sub\<close> occurs in \<open>s\<close> as a contiguous run.\<close>

fun py_in :: "string \<Rightarrow> string \<Rightarrow> bool" where
  "py_in sub [] = (sub = [])"
| "py_in sub (c # cs) = (starts_with sub (c # cs) \<or> py_in sub cs)"

subsection \<open>Constants (lines 12--25)\<close>

type_synonym pose = "real \<times> real \<times> real"

definition WAYPOINTS :: "string \<Rightarrow> pose option" where
  "WAYPOINTS = map_of
     [(''kitchen'', (7.675238132476807, -6.01118278503418, 1.0)),
      (''home'', (0.0, 0.0, 1.0)),
      (''table1'', (12.085535049438477, 4.3402838706970215, 0.6417557517388287)),
      (''table2'', (-10.501110076904297, 5.375353813171387, 0.8235567479660424)),
      (''table3'', (-7.50412654876709, -9.034976959228516, 0.21287361489247497))]"

text \<open>\<^verbatim>\<open>name in WAYPOINTS\<close>.\<close>

definition in_WAYPOINTS :: "string \<Rightarrow> bool" where
  "in_WAYPOINTS name = (WAYPOINTS name \<noteq> None)"

text \<open>The poses \<^verbatim>\<open>WAYPOINTS["kitchen"]\<close> and \<^verbatim>\<open>WAYPOINTS["home"]\<close>, which the code reads
  with a literal key.\<close>

definition kitchen_pose :: pose where
  "kitchen_pose = (7.675238132476807, -6.01118278503418, 1.0)"

definition home_pose :: pose where
  "home_pose = (0.0, 0.0, 1.0)"

text \<open>\<^verbatim>\<open>CONFIRM_TIMEOUT = 30.0\<close>, in seconds.\<close>

definition CONFIRM_TIMEOUT :: real where
  "CONFIRM_TIMEOUT = 30"

datatype rstate = IDLE | DELIVERY | WAITING_CONFIRMATION | CANCELED

subsection \<open>The robot, its effects and its environment\<close>

text \<open>The terminal and transient states of an actionlib goal; \<^verbatim>\<open>send_goal\<close> only asks
  whether the state is \<open>SUCCEEDED\<close>.\<close>

datatype goal_status =
  PENDING | ACTIVE | PREEMPTED | SUCCEEDED | ABORTED | REJECTED
  | PREEMPTING | RECALLING | RECALLED | LOST

datatype thread = Process_order | Modify_orders_while_moving

datatype event =
    LockAcquire
  | LockRelease
  | SetState rstate
  | QueueExtend "string list"
  | QueuePop string
  | QueueRemove string
  | Goal pose goal_status
  | CancelGoal
  | ThreadStart thread
  | Shutdown

text \<open>
  The attributes of \<^verbatim>\<open>RobotButler\<close> (lines 37--41); \<open>client_state\<close> is what
  \<^verbatim>\<open>self.move_base_client.get_state()\<close> returns once the goal of the client that
  \<^verbatim>\<open>self.move_base_client\<close> names has ended. \<open>goals\<close> and \<open>gates\<close> count the
  goals sent and the confirmation gates run so far: they index the world's answers.
  The lock is not a field: each method is run from a point where the lock is free, and
  its acquire and release are events of the trace.
\<close>

record robot =
  state :: rstate
  goal_location :: "string option"
  order_queue :: "string list"
  is_goal_cancel :: bool
  client_state :: goal_status
  goals :: nat
  gates :: nat
  trace :: "event list"

text \<open>
  One pass of the confirmation loop (lines 326--348) as the world plays it: the seconds
  elapsed since the gate started, read by the loop test; whether SIGINT is delivered
  while \<^verbatim>\<open>timed_input\<close> waits; and the line \<^verbatim>\<open>timed_input\<close> returns
  (\<open>None\<close> after 5 seconds without input).
\<close>

record attempt =
  elapsed :: real
  sigint :: bool
  reply :: "string option"

text \<open>
  The world: \<open>nav k\<close> is the terminal status of the \<open>k\<close>-th goal sent (every goal
  reaches one, so \<^verbatim>\<open>wait_for_result\<close> returns); \<open>confirm k\<close> is the passes of
  the \<open>k\<close>-th confirmation gate, after which the window has elapsed; \<open>modify\<close> is
  what the operator types at the modification listener, one pair per prompt: the line
  \<^verbatim>\<open>select\<close>/\<^verbatim>\<open>readline\<close> gets within 8 seconds (\<open>None\<close> for none) and the answer to
  the follow-up \<^verbatim>\<open>input()\<close> of that prompt, were it asked. After the last pair nothing
  more is typed.
\<close>

record world =
  nav :: "nat \<Rightarrow> goal_status"
  confirm :: "nat \<Rightarrow> attempt list"
  modify :: "(string option \<times> string) list"

definition emit :: "event \<Rightarrow> robot \<Rightarrow> robot" where
  "emit e s = s\<lparr>trace := trace s @ [e]\<rparr>"

definition set_state :: "rstate \<Rightarrow> robot \<Rightarrow> robot" where
  "set_state v s = emit (SetState v) (s\<lparr>state := v\<rparr>)"

text \<open>\<^verbatim>\<open>__init__\<close> (lines 37--41); a client that has sent no goal reports \<open>LOST\<close>.\<close>

definition init_robot :: robot where
  "init_robot = \<lparr>state = IDLE, goal_location = None, order_queue = [],
     is_goal_cancel = False, client_state = LOST, goals = 0, gates = 0, trace = []\<rparr>"

subsection \<open>Navigation (lines 111--129, 242--252, 273--304)\<close>

text \<open>
  \<^verbatim>\<open>send_goal\<close> in its two halves. Lines 115--120: a fresh client replaces
  \<^verbatim>\<open>self.move_base_client\<close> and sends the goal; the event records the goal with the
  terminal status the world gives it, and \<open>client_state\<close> is what the new client will
  report once that goal has ended. Lines 121--129: the result is awaited, then
  \<^verbatim>\<open>self.move_base_client\<close> is read again and asked for its state; true iff that state
  is \<open>SUCCEEDED\<close>. Run one after the other, the client read at line 123 is the client
  of line 116.
\<close>

definition goal_sent :: "world \<Rightarrow> pose \<Rightarrow> robot \<Rightarrow> robot" where
  "goal_sent w p s =
     (let st = nav w (goals s)
      in emit (Goal p st) (s\<lparr>client_state := st, goals := Suc (goals s)\<rparr>))"

definition goal_result :: "robot \<Rightarrow> bool" where
  "goal_result s = (client_state s = SUCCEEDED)"

definition send_goal :: "world \<Rightarrow> pose \<Rightarrow> robot \<Rightarrow> bool \<times> robot" where
  "send_goal w p s = (goal_result (goal_sent w p s), goal_sent w p s)"

text \<open>\<^verbatim>\<open>move_to_kitchen\<close>, and the robot while its kitchen goal is in flight (lines
  246--249 and 115--120).\<close>

definition kitchen_sent :: "world \<Rightarrow> robot \<Rightarrow> robot" where
  "kitchen_sent w s = goal_sent w kitchen_pose (s\<lparr>goal_location := Some ''kitchen''\<rparr>)"

definition move_to_kitchen :: "world \<Rightarrow> robot \<Rightarrow> bool \<times> robot" where
  "move_to_kitchen w s = (goal_result (kitchen_sent w s), kitchen_sent w s)"

datatype error = KeyError string

text \<open>\<^verbatim>\<open>move_to_table\<close>: \<^verbatim>\<open>WAYPOINTS[table]\<close> raises \<open>KeyError\<close> for a name that is not
  a key, after \<^verbatim>\<open>goal_location\<close> has been set; the robot is returned as the exception
  leaves it.\<close>

definition move_to_table :: "world \<Rightarrow> string \<Rightarrow> robot \<Rightarrow> (error + bool) \<times> robot" where
  "move_to_table w table s =
     (let s1 = s\<lparr>goal_location := Some table\<rparr>
      in case WAYPOINTS table of
           None \<Rightarrow> (Inl (KeyError table), s1)
         | Some p \<Rightarrow> (Inr (fst (send_goal w p s1)), snd (send_goal w p s1)))"

definition return_to_home :: "world \<Rightarrow> robot \<Rightarrow> robot" where
  "return_to_home w s = snd (send_goal w home_pose s)"

text \<open>\<^verbatim>\<open>return_to_kitchen\<close>: after the kitchen goal, a home goal as well when the client
  reports \<open>SUCCEEDED\<close> and \<^verbatim>\<open>is_goal_cancel\<close> is set, and the flag is cleared.\<close>

definition return_to_kitchen :: "world \<Rightarrow> robot \<Rightarrow> robot" where
  "return_to_kitchen w s =
     (let s1 = snd (send_goal w kitchen_pose s)
      in if client_state s1 = SUCCEEDED \<and> is_goal_cancel s1
         then (return_to_home w s1)\<lparr>is_goal_cancel := False\<rparr>
         else s1)"

subsection \<open>The cancellation handler (lines 48--67)\<close>

definition signal_handler :: "world \<Rightarrow> robot \<Rightarrow> robot" where
  "signal_handler w s =
     (let s1 = emit CancelGoal (set_state CANCELED (emit LockAcquire s));
          s2 = (if goal_location s1 = Some ''kitchen'' then return_to_home w s1
                else if (case goal_location s1 of None \<Rightarrow> False
                         | Some g \<Rightarrow> g \<noteq> [] \<and> py_in ''table'' g)
                then return_to_kitchen w (s1\<lparr>is_goal_cancel := True\<rparr>)
                else return_to_home w s1)
      in emit LockRelease s2)"

subsection \<open>Order intake (lines 69--97) and additions (lines 254--271)\<close>

text \<open>The name an entry of a comma separated list stands for: \<^verbatim>\<open>f"table{table.strip()}"\<close>.\<close>

definition table_name :: "string \<Rightarrow> string" where
  "table_name table = ''table'' @ py_strip table"

definition extend_queue :: "string list \<Rightarrow> robot \<Rightarrow> robot" where
  "extend_queue names s = emit (QueueExtend names) (s\<lparr>order_queue := order_queue s @ names\<rparr>)"

text \<open>The loop of lines 83--87: the names of the entries that are keys of the registry,
  in the order of the entries.\<close>

definition valid_tables :: "string list \<Rightarrow> string list" where
  "valid_tables tables = filter in_WAYPOINTS (map table_name tables)"

datatype intake = Not_idle | Exited | Started | Invalid

text \<open>
  One pass of the body of \<^verbatim>\<open>while True\<close> in \<^verbatim>\<open>get_orders_from_user\<close>, given the line
  \<^verbatim>\<open>input()\<close> returns. \<open>Started\<close>: the batch was appended and a thread running
  \<^verbatim>\<open>process_order\<close> was started (the thread's own run is \<open>process_order\<close> below).
\<close>

definition get_orders_from_user :: "string \<Rightarrow> robot \<Rightarrow> intake \<times> robot" where
  "get_orders_from_user line s =
     (if state s \<noteq> IDLE then (Not_idle, s)
      else let order_input = py_strip line
           in if py_lower order_input = ''exit'' then (Exited, emit Shutdown s)
              else let s1 = emit LockAcquire s;
                       valid = valid_tables (py_split CHR '','' order_input)
                   in if valid \<noteq> []
                      then (Started,
                            emit (ThreadStart Process_order)
                              (emit LockRelease (extend_queue valid s1)))
                      else (Invalid, emit LockRelease s1))"

text \<open>\<^verbatim>\<open>add_tables\<close>, given the line its \<^verbatim>\<open>input()\<close> returns: the queue tested at line 264
  is the queue before the batch is appended.\<close>

definition add_tables :: "string \<Rightarrow> robot \<Rightarrow> robot" where
  "add_tables line s =
     (let tables = py_split CHR '','' (py_strip line);
          valid = filter (\<lambda>n. in_WAYPOINTS n \<and> n \<notin> set (order_queue s))
                    (map table_name tables)
      in if valid \<noteq> [] then extend_queue valid s else s)"

subsection \<open>The confirmation gate (lines 306--365)\<close>

text \<open>
  How the loop of lines 326--348 is left: by the \<^verbatim>\<open>return False\<close> of line 348, or
  through its test or a \<^verbatim>\<open>break\<close> with the values of \<^verbatim>\<open>confirmed\<close> and
  \<^verbatim>\<open>input_received\<close>.
\<close>

datatype loop_exit = Returned | Left bool bool

text \<open>
  A pass reads the clock; inside the window it waits in \<^verbatim>\<open>timed_input\<close>, during which
  the handler runs if SIGINT is delivered; "yes" and "no" leave the loop by \<^verbatim>\<open>break\<close>,
  before line 346 is reached; no input and any other input go on to the test of line 346.
\<close>

fun confirm_loop :: "world \<Rightarrow> attempt list \<Rightarrow> robot \<Rightarrow> loop_exit \<times> robot" where
  "confirm_loop w [] s = (Left False False, s)"
| "confirm_loop w (a # as) s =
     (if \<not> elapsed a < CONFIRM_TIMEOUT then (Left False False, s)
      else let s1 = (if sigint a then signal_handler w s else s)
           in case reply a of
                None \<Rightarrow>
                  if state s1 = CANCELED then (Returned, s1) else confirm_loop w as s1
              | Some line \<Rightarrow>
                  let user_input = py_lower (py_strip (py_strip line))
                  in if user_input = ''yes'' then (Left True True, s1)
                     else if user_input = ''no'' then (Left False True, s1)
                     else if state s1 = CANCELED then (Returned, s1)
                     else confirm_loop w as s1)"

definition wait_for_confirmation :: "world \<Rightarrow> string \<Rightarrow> robot \<Rightarrow> bool \<times> robot" where
  "wait_for_confirmation w location s =
     (case confirm_loop w (confirm w (gates s))
             (s\<lparr>goal_location := Some location, gates := Suc (gates s)\<rparr>) of
        (Returned, s1) \<Rightarrow> (False, s1)
      | (Left confirmed input_received, s1) \<Rightarrow>
          if \<not> input_received then
            if py_in ''table'' location
            then (False, return_to_home w (return_to_kitchen w s1))
            else (False, return_to_home w s1)
          else (confirmed, s1))"

subsection \<open>The modification listener (lines 183--240)\<close>

text \<open>The loop of lines 225--228: \<^verbatim>\<open>list.remove\<close> deletes the first occurrence.\<close>

fun remove_tables :: "string list \<Rightarrow> robot \<Rightarrow> robot" where
  "remove_tables [] s = s"
| "remove_tables (t # ts) s =
     remove_tables ts
       (if t \<in> set (order_queue s)
        then emit (QueueRemove t) (s\<lparr>order_queue := remove1 t (order_queue s)\<rparr>)
        else s)"

fun modify_loop :: "world \<Rightarrow> (string option \<times> string) list \<Rightarrow> robot \<Rightarrow> robot" where
  "modify_loop w [] s = s"
| "modify_loop w ((typed, answer) # rest) s =
     (if state s \<noteq> DELIVERY then s
      else case typed of
             None \<Rightarrow> s
           | Some line \<Rightarrow>
               let modify_input = py_lower (py_strip line)
               in if modify_input = ''none'' then s
                  else if modify_input = ''add'' then add_tables answer s
                  else if modify_input = ''remove'' then
                    let tables_to_remove =
                          filter (\<lambda>n. n \<in> set (order_queue s))
                            (map table_name (py_split CHR '','' (py_strip answer)))
                    in if tables_to_remove = [] then modify_loop w rest s
                       else let s1 = remove_tables tables_to_remove s
                            in if order_queue s1 = []
                               then set_state IDLE (return_to_home w (emit CancelGoal s1))
                               else s1
                  else modify_loop w rest s)"

definition modify_orders_while_moving :: "world \<Rightarrow> robot \<Rightarrow> robot" where
  "modify_orders_while_moving w s = modify_loop w (modify w) s"

subsection \<open>The delivery cycle (lines 131--181)\<close>

text \<open>The confirmation gate, the forced moves and the handler leave the queue alone, so
  every pass of the delivery loop shortens it.\<close>

lemma queue_emit [simp]: "order_queue (emit e s) = order_queue s"
  by (simp add: emit_def)

lemma queue_send_goal [simp]: "order_queue (snd (send_goal w p s)) = order_queue s"
  by (simp add: send_goal_def goal_sent_def Let_def)

lemma queue_return_to_home [simp]: "order_queue (return_to_home w s) = order_queue s"
  by (simp add: return_to_home_def)

lemma queue_return_to_kitchen [simp]: "order_queue (return_to_kitchen w s) = order_queue s"
  by (simp add: return_to_kitchen_def Let_def)

lemma queue_signal_handler [simp]: "order_queue (signal_handler w s) = order_queue s"
  by (simp add: signal_handler_def Let_def set_state_def)

lemma queue_confirm_loop [simp]: "order_queue (snd (confirm_loop w as s)) = order_queue s"
  by (induction as arbitrary: s) (auto simp: Let_def split: option.splits)

lemma queue_wait_for_confirmation [simp]:
  "order_queue (snd (wait_for_confirmation w loc s)) = order_queue s"
proof -
  let ?s0 = "s\<lparr>goal_location := Some loc, gates := Suc (gates s)\<rparr>"
  obtain x s1 where c: "confirm_loop w (confirm w (gates s)) ?s0 = (x, s1)"
    by (cases "confirm_loop w (confirm w (gates s)) ?s0")
  have "order_queue s1 = order_queue s"
    using queue_confirm_loop [of w "confirm w (gates s)" ?s0] c by simp
  then show ?thesis
    by (cases x) (simp_all add: wait_for_confirmation_def c)
qed

lemma queue_move_to_table [simp]:
  "order_queue (snd (move_to_table w t s)) = order_queue s"
  by (simp add: move_to_table_def Let_def split: option.splits)

text \<open>
  The loop of lines 161--174. Both \<^verbatim>\<open>continue\<close>s and the end of the body lead to the
  next test, so a failed move, a refusal and a confirmation all go on with the queue. A
  \<open>KeyError\<close> of \<^verbatim>\<open>move_to_table\<close> ends the thread where it is raised.
\<close>

function drain :: "world \<Rightarrow> robot \<Rightarrow> error option \<times> robot" where
  "drain w s =
     (case order_queue s of
        [] \<Rightarrow> (None, s)
      | current_table # rest \<Rightarrow>
          if state s = CANCELED then (None, s)
          else (case move_to_table w current_table
                       (emit (QueuePop current_table)
                          (s\<lparr>order_queue := rest, goal_location := Some current_table\<rparr>)) of
                  (Inl e, s2) \<Rightarrow> (Some e, s2)
                | (Inr reached, s2) \<Rightarrow>
                    if \<not> reached then drain w s2
                    else drain w (snd (wait_for_confirmation w current_table s2))))"
  by pat_completeness auto
termination drain
proof (relation "measure (\<lambda>(w, s). length (order_queue s))", goal_cases)
  case 1
  show ?case by simp
next
  case (2 w s current_table rest x y reached)
  have "order_queue y = order_queue (snd (move_to_table w current_table
     (emit (QueuePop current_table)
        (s\<lparr>order_queue := rest, goal_location := Some current_table\<rparr>))))"
    using 2 by (metis snd_conv)
  with 2 show ?case by simp
next
  case (3 w s current_table rest x y reached)
  have "order_queue y = order_queue (snd (move_to_table w current_table
     (emit (QueuePop current_table)
        (s\<lparr>order_queue := rest, goal_location := Some current_table\<rparr>))))"
    using 3 by (metis snd_conv)
  with 3 show ?case by simp
qed

declare drain.simps [simp del]

text \<open>The robot at the moment the listener thread starts (lines 136--146, from \<open>IDLE\<close>):
  the lock taken, the state set to \<open>DELIVERY\<close>, the lock released, the thread started.\<close>

definition listener_start :: "robot \<Rightarrow> robot" where
  "listener_start s =
     emit (ThreadStart Modify_orders_while_moving)
       (emit LockRelease (set_state DELIVERY (emit LockAcquire s)))"

text \<open>
  The rest of \<^verbatim>\<open>process_order\<close> (lines 148--181), from the robot as the start of the
  listener leaves it, with the exception that ended it, if one did. Three threads could
  run beside it; the model fixes when they do.

  \<^item> The listener thread is started before the kitchen goal is sent and is joined at line
    159. On the schedule modelled, the kitchen goal is sent (lines 246--249, 115--120);
    while \<^verbatim>\<open>wait_for_result\<close> (line 121) waits, the listener does all its work, to its
    end; then line 123 reads \<^verbatim>\<open>self.move_base_client\<close>. If the listener emptied the
    queue it has asked that client to cancel its goal and replaced it by the client of
    its home goal (line 235), so what line 123 then reads is the state of the home
    goal's client. A \<^verbatim>\<open>process_order\<close> that wakes before the home goal has ended reads a
    state other than \<open>SUCCEEDED\<close> there, and goes the way this model goes when the
    home goal does not succeed.
  \<^item> SIGINT is delivered only while a confirmation gate waits (see \<open>confirm_loop\<close>).
  \<^item> The intake loop acts only while the state is \<open>IDLE\<close>; no line is typed at its
    prompt while the cycle runs.
\<close>

definition deliver :: "world \<Rightarrow> robot \<Rightarrow> error option \<times> robot" where
  "deliver w s0 =
     (let s1 = modify_orders_while_moving w (kitchen_sent w s0)
      in if \<not> goal_result s1 then (None, set_state IDLE s1)
         else let s3 = snd (wait_for_confirmation w ''kitchen'' s1)
              in if \<not> fst (wait_for_confirmation w ''kitchen'' s1)
                 then (None, set_state IDLE (return_to_home w s3))
                 else case drain w s3 of
                        (Some e, s4) \<Rightarrow> (Some e, s4)
                      | (None, s4) \<Rightarrow>
                          (None, set_state IDLE
                             (if state s4 = CANCELED then return_to_kitchen w s4
                              else return_to_home w s4)))"

text \<open>\<^verbatim>\<open>process_order\<close>: rejected outside \<open>IDLE\<close> (lines 136--140), else begun (lines
  142--146) and carried out.\<close>

definition process_order :: "world \<Rightarrow> robot \<Rightarrow> error option \<times> robot" where
  "process_order w s =
     (if state s \<noteq> IDLE then (None, emit LockRelease (emit LockAcquire s))
      else deliver w (listener_start s))"

subsection \<open>Reading a trace\<close>

text \<open>The events a run from \<open>s\<close> to \<open>s'\<close> added.\<close>

definition events_since :: "robot \<Rightarrow> robot \<Rightarrow> event list" where
  "events_since s s' = drop (length (trace s)) (trace s')"

text \<open>The poses of the goals sent, in order.\<close>

fun goal_poses :: "event list \<Rightarrow> pose list" where
  "goal_poses [] = []"
| "goal_poses (Goal p st # es) = p # goal_poses es"
| "goal_poses (e # es) = goal_poses es"

text \<open>An event is calm when it is neither a goal other than home or kitchen nor the pop
  of a destination; a calm run adds calm events only.\<close>

definition calm :: "event \<Rightarrow> bool" where
  "calm e = (case e of Goal p st \<Rightarrow> p = home_pose \<or> p = kitchen_pose
             | QueuePop t \<Rightarrow> False | _ \<Rightarrow> True)"

definition calm_run :: "robot \<Rightarrow> robot \<Rightarrow> bool" where
  "calm_run s s' = (\<exists>es. trace s' = trace s @ es \<and> list_all calm es)"

text \<open>The destinations popped, in order.\<close>

fun pops :: "event list \<Rightarrow> string list" where
  "pops [] = []"
| "pops (QueuePop t # es) = t # pops es"
| "pops (e # es) = pops es"

text \<open>
  Reading a pass of the confirmation loop: what the operator said, after the two
  \<^verbatim>\<open>strip\<close>s and the \<^verbatim>\<open>lower\<close>; whether the pass is neither a "yes" nor a "no";
  whether the loop test finds the window still open. A run of passes is quiet when none
  is interrupted and none is answered. \<open>gate_entry\<close> is the robot as line 319 leaves it,
  counted as one more gate run.
\<close>

definition says :: "attempt \<Rightarrow> string \<Rightarrow> bool" where
  "says a u = (case reply a of None \<Rightarrow> False
               | Some line \<Rightarrow> py_lower (py_strip (py_strip line)) = u)"

definition unanswered :: "attempt \<Rightarrow> bool" where
  "unanswered a = (\<not> says a ''yes'' \<and> \<not> says a ''no'')"

definition in_window :: "attempt \<Rightarrow> bool" where
  "in_window a = (elapsed a < CONFIRM_TIMEOUT)"

definition quiet :: "attempt list \<Rightarrow> bool" where
  "quiet as = list_all (\<lambda>a. \<not> sigint a \<and> unanswered a) as"

definition gate_entry :: "string \<Rightarrow> robot \<Rightarrow> robot" where
  "gate_entry location s = s\<lparr>goal_location := Some location, gates := Suc (gates s)\<rparr>"

text \<open>
  The lock discipline of the specification, read off a thread's trace from the moment
  \<open>held\<close> says whether the thread holds the lock: every write of the state or the
  queue happens while the lock is held, and no goal is sent (and waited for) while it is
  held.
\<close>

fun writes_under_lock :: "bool \<Rightarrow> event list \<Rightarrow> bool" where
  "writes_under_lock held [] = True"
| "writes_under_lock held (LockAcquire # es) = writes_under_lock True es"
| "writes_under_lock held (LockRelease # es) = writes_under_lock False es"
| "writes_under_lock held (SetState v # es) = (held \<and> writes_under_lock held es)"
| "writes_under_lock held (QueueExtend ns # es) = (held \<and> writes_under_lock held es)"
| "writes_under_lock held (QueuePop t # es) = (held \<and> writes_under_lock held es)"
| "writes_under_lock held (QueueRemove t # es) = (held \<and> writes_under_lock held es)"
| "writes_under_lock held (e # es) = writes_under_lock held es"

fun moves_outside_lock :: "bool \<Rightarrow> event list \<Rightarrow> bool" where
  "moves_outside_lock held [] = True"
| "moves_outside_lock held (LockAcquire # es) = moves_outside_lock True es"
| "moves_outside_lock held (LockRelease # es) = moves_outside_lock False es"
| "moves_outside_lock held (Goal p st # es) = (\<not> held \<and> moves_outside_lock held es)"
| "moves_outside_lock held (e # es) = moves_outside_lock held es"

subsection \<open>Scenarios\<close>

text \<open>Two orders queued at the idle robot; the operator removes both at the listener's
  first prompt; every goal is reported \<open>SUCCEEDED\<close> and every gate is answered "yes" at
  once.\<close>

definition removes_both :: world where
  "removes_both = \<lparr>nav = (\<lambda>k. SUCCEEDED),
      confirm = (\<lambda>k. [\<lparr>elapsed = 0, sigint = False, reply = Some ''yes''\<rparr>]),
      modify = [(Some ''remove'', ''1, 2'')]\<rparr>"

definition two_orders :: robot where
  "two_orders = init_robot\<lparr>order_queue := [''table1'', ''table2'']\<rparr>"

text \<open>The robot in a delivery, heading for the kitchen and for \<open>table1\<close>; a world in
  which every goal succeeds, every gate is answered "yes" at once and nothing is typed at
  the listener.\<close>

definition at_kitchen :: robot where
  "at_kitchen = init_robot\<lparr>state := DELIVERY, goal_location := Some ''kitchen''\<rparr>"

definition to_table1 :: robot where
  "to_table1 = init_robot\<lparr>state := DELIVERY, goal_location := Some ''table1''\<rparr>"

definition all_well :: world where
  "all_well = \<lparr>nav = (\<lambda>k. SUCCEEDED),
               confirm = (\<lambda>k. [\<lparr>elapsed = 0, sigint = False, reply = Some ''yes''\<rparr>]),
               modify = []\<rparr>"

text \<open>Worlds for the confirmation gate: "yes" typed in the pass in which SIGINT arrives;
  silence, then SIGINT in a pass with an unrecognised word; a refusal in the second pass;
  nobody answering until the window has elapsed.\<close>

definition silence_under_sigint :: world where
  "silence_under_sigint = \<lparr>nav = (\<lambda>k. SUCCEEDED),
      confirm = (\<lambda>k. [\<lparr>elapsed = 0, sigint = True, reply = None\<rparr>]),
      modify = []\<rparr>"

definition yes_under_sigint :: world where
  "yes_under_sigint = \<lparr>nav = (\<lambda>k. SUCCEEDED),
      confirm = (\<lambda>k. [\<lparr>elapsed = 0, sigint = True, reply = Some ''yes''\<rparr>]),
      modify = []\<rparr>"

definition silence_then_sigint :: world where
  "silence_then_sigint = \<lparr>nav = (\<lambda>k. SUCCEEDED),
      confirm = (\<lambda>k. [\<lparr>elapsed = 0, sigint = False, reply = None\<rparr>,
                      \<lparr>elapsed = 5, sigint = True, reply = Some ''maybe''\<rparr>,
                      \<lparr>elapsed = 6, sigint = False, reply = Some ''yes''\<rparr>]),
      modify = []\<rparr>"

definition declined_late :: world where
  "declined_late = \<lparr>nav = (\<lambda>k. SUCCEEDED),
      confirm = (\<lambda>k. [\<lparr>elapsed = 0, sigint = False, reply = None\<rparr>,
                      \<lparr>elapsed = 5, sigint = False, reply = Some '' No''\<rparr>]),
      modify = []\<rparr>"

definition nobody_answers :: world where
  "nobody_answers = \<lparr>nav = (\<lambda>k. SUCCEEDED),
      confirm = (\<lambda>k. [\<lparr>elapsed = 0, sigint = False, reply = None\<rparr>,
                      \<lparr>elapsed = 5, sigint = False, reply = Some ''what?''\<rparr>,
                      \<lparr>elapsed = 31, sigint = False, reply = Some ''yes''\<rparr>]),
      modify = []\<rparr>"

text \<open>The batch \<open>1,1\<close> typed at the idle robot, and a world in which the operator then
  removes \<open>1\<close> at the listener, every goal succeeds and every gate is answered "yes".\<close>

definition removes_one :: world where
  "removes_one = \<lparr>nav = (\<lambda>k. SUCCEEDED),
      confirm = (\<lambda>k. [\<lparr>elapsed = 0, sigint = False, reply = Some ''yes''\<rparr>]),
      modify = [(Some ''remove'', ''1'')]\<rparr>"

definition ordered_twice :: robot where
  "ordered_twice = snd (get_orders_from_user ''1,1'' init_robot)"

section \<open>Properties\<close>

subsection \<open>The registry, strings and traces\<close>

text \<open>The definitions a run on a concrete input unfolds.\<close>

lemmas run_defs = init_robot_def listener_start_def set_state_def emit_def Let_def
  py_strip_def py_isspace_def py_lower_def table_name_def return_to_home_def return_to_kitchen_def
  send_goal_def goal_sent_def goal_result_def kitchen_sent_def move_to_kitchen_def deliver_def
  process_order_def move_to_table_def modify_orders_while_moving_def
  wait_for_confirmation_def signal_handler_def extend_queue_def add_tables_def
  get_orders_from_user_def valid_tables_def in_WAYPOINTS_def WAYPOINTS_def CONFIRM_TIMEOUT_def
  events_since_def

lemma kitchen_in_registry: "WAYPOINTS ''kitchen'' = Some kitchen_pose"
  by (simp add: WAYPOINTS_def kitchen_pose_def)

lemma home_in_registry: "WAYPOINTS ''home'' = Some home_pose"
  by (simp add: WAYPOINTS_def home_pose_def)

lemma registry_keys:
  "in_WAYPOINTS n \<longleftrightarrow> n \<in> {''kitchen'', ''home'', ''table1'', ''table2'', ''table3''}"
  by (simp add: in_WAYPOINTS_def WAYPOINTS_def del: not_None_eq)

lemma table_name_valid:
  "in_WAYPOINTS (table_name e) \<longleftrightarrow> py_strip e \<in> {''1'', ''2'', ''3''}"
  by (auto simp: registry_keys table_name_def)

lemma starts_with_iff: "starts_with p s \<longleftrightarrow> (\<exists>r. s = p @ r)"
  by (induction p s rule: starts_with.induct) auto

lemma valid_tables_eq:
  "valid_tables es = map table_name (filter (\<lambda>e. py_strip e \<in> {''1'', ''2'', ''3''}) es)"
  unfolding valid_tables_def
  by (induction es) (simp_all add: table_name_valid)

lemma emit_fields [simp]:
  "state (emit e s) = state s"
  "goal_location (emit e s) = goal_location s"
  "is_goal_cancel (emit e s) = is_goal_cancel s"
  "client_state (emit e s) = client_state s"
  "goals (emit e s) = goals s"
  "gates (emit e s) = gates s"
  "trace (emit e s) = trace s @ [e]"
  by (simp_all add: emit_def)

lemma events_since_trace:
  "trace s' = trace s @ es \<Longrightarrow> events_since s s' = es"
  by (simp add: events_since_def)

lemma events_since_self [simp]: "events_since s s = []"
  by (simp add: events_since_def)

lemma events_since_append:
  "prefix (trace s) (trace s') \<Longrightarrow> trace s'' = trace s' @ es \<Longrightarrow>
   events_since s s'' = events_since s s' @ es"
  by (auto simp: events_since_def prefix_def)

lemma prefix_emit [simp]:
  "prefix (trace s) (trace s') \<Longrightarrow> prefix (trace s) (trace (emit e s'))"
  by (simp add: prefix_def) auto

lemma events_since_emit [simp]:
  "prefix (trace s) (trace s') \<Longrightarrow> events_since s (emit e s') = events_since s s' @ [e]"
  by (rule events_since_append) simp_all

lemmas string_defs = py_strip_def py_isspace_def py_lower_def table_name_def

subsection \<open>What each method does to the fields and to the trace\<close>

lemma set_state_fields [simp]:
  "state (set_state v s) = v"
  "goal_location (set_state v s) = goal_location s"
  "order_queue (set_state v s) = order_queue s"
  "is_goal_cancel (set_state v s) = is_goal_cancel s"
  "client_state (set_state v s) = client_state s"
  "goals (set_state v s) = goals s"
  "gates (set_state v s) = gates s"
  "trace (set_state v s) = trace s @ [SetState v]"
  by (simp_all add: set_state_def)

lemma goal_sent_fields [simp]:
  "state (goal_sent w p s) = state s"
  "goal_location (goal_sent w p s) = goal_location s"
  "order_queue (goal_sent w p s) = order_queue s"
  "is_goal_cancel (goal_sent w p s) = is_goal_cancel s"
  "client_state (goal_sent w p s) = nav w (goals s)"
  "goals (goal_sent w p s) = Suc (goals s)"
  "gates (goal_sent w p s) = gates s"
  "trace (goal_sent w p s) = trace s @ [Goal p (nav w (goals s))]"
  by (simp_all add: goal_sent_def Let_def)

lemma kitchen_sent_fields [simp]:
  "state (kitchen_sent w s) = state s"
  "goal_location (kitchen_sent w s) = Some ''kitchen''"
  "order_queue (kitchen_sent w s) = order_queue s"
  "is_goal_cancel (kitchen_sent w s) = is_goal_cancel s"
  "client_state (kitchen_sent w s) = nav w (goals s)"
  "goals (kitchen_sent w s) = Suc (goals s)"
  "gates (kitchen_sent w s) = gates s"
  "trace (kitchen_sent w s) = trace s @ [Goal kitchen_pose (nav w (goals s))]"
  by (simp_all add: kitchen_sent_def)

lemma send_goal_fst [simp]: "fst (send_goal w p s) = (nav w (goals s) = SUCCEEDED)"
  by (simp add: send_goal_def goal_result_def)

lemma send_goal_fields [simp]:
  "state (snd (send_goal w p s)) = state s"
  "goal_location (snd (send_goal w p s)) = goal_location s"
  "is_goal_cancel (snd (send_goal w p s)) = is_goal_cancel s"
  "client_state (snd (send_goal w p s)) = nav w (goals s)"
  "goals (snd (send_goal w p s)) = Suc (goals s)"
  "gates (snd (send_goal w p s)) = gates s"
  "trace (snd (send_goal w p s)) = trace s @ [Goal p (nav w (goals s))]"
  by (simp_all add: send_goal_def)

lemma return_to_home_fields [simp]:
  "state (return_to_home w s) = state s"
  "goal_location (return_to_home w s) = goal_location s"
  "is_goal_cancel (return_to_home w s) = is_goal_cancel s"
  "client_state (return_to_home w s) = nav w (goals s)"
  "goals (return_to_home w s) = Suc (goals s)"
  "gates (return_to_home w s) = gates s"
  "trace (return_to_home w s) = trace s @ [Goal home_pose (nav w (goals s))]"
  by (simp_all add: return_to_home_def)

lemma return_to_kitchen_fields [simp]:
  "state (return_to_kitchen w s) = state s"
  "goal_location (return_to_kitchen w s) = goal_location s"
  "gates (return_to_kitchen w s) = gates s"
  "is_goal_cancel (return_to_kitchen w s) = (is_goal_cancel s \<and> nav w (goals s) \<noteq> SUCCEEDED)"
  "trace (return_to_kitchen w s) =
     trace s @ Goal kitchen_pose (nav w (goals s)) #
       (if nav w (goals s) = SUCCEEDED \<and> is_goal_cancel s
        then [Goal home_pose (nav w (Suc (goals s)))] else [])"
  by (auto simp: return_to_kitchen_def Let_def)

lemma signal_handler_fields [simp]:
  "state (signal_handler w s) = CANCELED"
  "goal_location (signal_handler w s) = goal_location s"
  "gates (signal_handler w s) = gates s"
  by (simp_all add: signal_handler_def Let_def)

lemma signal_handler_trace:
  "trace (signal_handler w s) =
     trace s @ [LockAcquire, SetState CANCELED, CancelGoal] @
       (if goal_location s = Some ''kitchen'' then [Goal home_pose (nav w (goals s))]
        else if (case goal_location s of None \<Rightarrow> False | Some g \<Rightarrow> g \<noteq> [] \<and> py_in ''table'' g)
        then Goal kitchen_pose (nav w (goals s)) #
               (if nav w (goals s) = SUCCEEDED then [Goal home_pose (nav w (Suc (goals s)))] else [])
        else [Goal home_pose (nav w (goals s))]) @ [LockRelease]"
  by (simp add: signal_handler_def Let_def)


lemma calm_run_refl [simp]: "calm_run s s"
  by (simp add: calm_run_def)

lemma calm_run_trans: "calm_run s s' \<Longrightarrow> calm_run s' s'' \<Longrightarrow> calm_run s s''"
  by (auto simp: calm_run_def)

lemma calm_runI: "trace s' = trace s @ es \<Longrightarrow> list_all calm es \<Longrightarrow> calm_run s s'"
  by (auto simp: calm_run_def)

lemma calm_run_prefix: "calm_run s s' \<Longrightarrow> prefix (trace s) (trace s')"
  by (auto simp: calm_run_def)

lemma calm_run_events: "calm_run s s' \<Longrightarrow> list_all calm (events_since s s')"
  by (auto simp: calm_run_def events_since_def)

lemma calm_return_to_home [simp]: "calm_run s (return_to_home w s)"
  by (rule calm_runI [where es = "[Goal home_pose (nav w (goals s))]"]) (simp_all add: calm_def)

lemma calm_return_to_kitchen [simp]: "calm_run s (return_to_kitchen w s)"
  by (rule calm_runI [OF return_to_kitchen_fields(5)]) (simp add: calm_def)

lemma calm_signal_handler [simp]: "calm_run s (signal_handler w s)"
  by (rule calm_runI [OF signal_handler_trace]) (simp add: calm_def)

lemma calm_set_state [simp]: "calm_run s (set_state v s)"
  by (rule calm_runI [where es = "[SetState v]"]) (simp_all add: calm_def)

lemma calm_confirm_loop [simp]: "calm_run s (snd (confirm_loop w as s))"
proof (induction as arbitrary: s)
  case Nil
  show ?case by simp
next
  case (Cons a as)
  have h: "calm_run s (if sigint a then signal_handler w s else s)" by simp
  show ?case
    using calm_run_trans [OF h Cons.IH [of "if sigint a then signal_handler w s else s"]] h
    by (auto simp: Let_def split: option.splits)
qed

lemma calm_goal_location [simp]: "calm_run s (s\<lparr>goal_location := g, gates := n\<rparr>)"
  by (simp add: calm_run_def)

lemma calm_wait_for_confirmation [simp]: "calm_run s (snd (wait_for_confirmation w loc s))"
proof -
  let ?s0 = "s\<lparr>goal_location := Some loc, gates := Suc (gates s)\<rparr>"
  obtain x s1 where c: "confirm_loop w (confirm w (gates s)) ?s0 = (x, s1)"
    by (cases "confirm_loop w (confirm w (gates s)) ?s0")
  have "calm_run ?s0 s1"
    using calm_confirm_loop [of ?s0 w "confirm w (gates s)"] c by simp
  then have 1: "calm_run s s1"
    by (rule calm_run_trans [OF calm_goal_location])
  have 2: "calm_run s (return_to_home w s1)"
    by (rule calm_run_trans [OF 1]) simp
  have 3: "calm_run s (return_to_home w (return_to_kitchen w s1))"
    by (rule calm_run_trans [OF calm_run_trans [OF 1 calm_return_to_kitchen [of s1 w]]]) simp
  show ?thesis
    using 1 2 3 by (cases x) (simp_all add: wait_for_confirmation_def c)
qed

lemma calm_kitchen_sent [simp]: "calm_run s (kitchen_sent w s)"
  by (rule calm_runI [where es = "[Goal kitchen_pose (nav w (goals s))]"])
     (simp_all add: calm_def)

lemma calm_move_to_kitchen [simp]: "calm_run s (snd (move_to_kitchen w s))"
  by (simp add: move_to_kitchen_def)

lemma calm_remove_tables [simp]: "calm_run s (remove_tables ts s)"
proof (induction ts arbitrary: s)
  case Nil
  show ?case by simp
next
  case (Cons t ts)
  let ?s1 = "emit (QueueRemove t) (s\<lparr>order_queue := remove1 t (order_queue s)\<rparr>)"
  have "calm_run s ?s1"
    by (rule calm_runI [where es = "[QueueRemove t]"]) (simp_all add: calm_def)
  then show ?case
    using Cons.IH [of ?s1] Cons.IH [of s] by (auto intro: calm_run_trans)
qed

lemma calm_add_tables [simp]: "calm_run s (add_tables line s)"
proof -
  have "calm_run s (extend_queue ns s)" for ns
    by (rule calm_runI [where es = "[QueueExtend ns]"]) (simp_all add: extend_queue_def calm_def)
  then show ?thesis by (simp add: add_tables_def Let_def)
qed

lemma calm_emptied:
  "calm_run s (set_state IDLE (return_to_home w (emit CancelGoal s)))"
  by (rule calm_runI [where es = "[CancelGoal, Goal home_pose (nav w (goals s)), SetState IDLE]"])
     (simp_all add: calm_def)

lemma calm_modify_loop [simp]: "calm_run s (modify_loop w script s)"
proof (induction script arbitrary: s)
  case Nil
  show ?case by simp
next
  case (Cons p script)
  obtain typed answer where p: "p = (typed, answer)" by (cases p)
  show ?case
    unfolding p
    by (auto simp: Let_def Cons.IH split: option.splits
          intro: calm_run_trans [OF calm_remove_tables calm_emptied])
qed

subsection \<open>The listener and the cycle it cuts short\<close>

lemma remove_tables_fields [simp]:
  "state (remove_tables ts s) = state s"
  "goal_location (remove_tables ts s) = goal_location s"
  "is_goal_cancel (remove_tables ts s) = is_goal_cancel s"
  "client_state (remove_tables ts s) = client_state s"
  "goals (remove_tables ts s) = goals s"
  "gates (remove_tables ts s) = gates s"
  by (induction ts arbitrary: s) simp_all

lemma listener_start_fields [simp]:
  "state (listener_start s) = DELIVERY"
  "goal_location (listener_start s) = goal_location s"
  "order_queue (listener_start s) = order_queue s"
  "is_goal_cancel (listener_start s) = is_goal_cancel s"
  "client_state (listener_start s) = client_state s"
  "goals (listener_start s) = goals s"
  "gates (listener_start s) = gates s"
  "trace (listener_start s) =
     trace s @ [LockAcquire, SetState DELIVERY, LockRelease, ThreadStart Modify_orders_while_moving]"
  by (simp_all add: listener_start_def)

lemma calm_listener_start [simp]: "calm_run s (listener_start s)"
  by (rule calm_runI [OF listener_start_fields(8)]) (simp add: calm_def)

lemma queue_add_tables: "order_queue (add_tables line s) = [] \<Longrightarrow> order_queue s = []"
  by (simp add: add_tables_def Let_def extend_queue_def split: if_splits)

lemma remove_tables_events:
  "\<exists>xs. trace (remove_tables ts s) = trace s @ map QueueRemove xs \<and>
        (xs = [] \<longrightarrow> order_queue (remove_tables ts s) = order_queue s)"
proof (induction ts arbitrary: s)
  case Nil
  have "trace (remove_tables [] s) = trace s @ map QueueRemove []" by simp
  then show ?case by auto
next
  case (Cons t ts)
  show ?case
  proof (cases "t \<in> set (order_queue s)")
    case False
    with Cons.IH [of s] show ?thesis by simp
  next
    case True
    let ?s1 = "emit (QueueRemove t) (s\<lparr>order_queue := remove1 t (order_queue s)\<rparr>)"
    obtain xs where xs: "trace (remove_tables ts ?s1) = trace ?s1 @ map QueueRemove xs"
      using Cons.IH [of ?s1] by blast
    have "trace (remove_tables (t # ts) s) = trace s @ map QueueRemove (t # xs)"
      using True xs by simp
    then show ?thesis by blast
  qed
qed

lemma emptied_by_removal:
  assumes "order_queue s \<noteq> []" and "order_queue (remove_tables ts s) = []"
  shows "\<exists>removed. removed \<noteq> [] \<and>
           events_since s (set_state IDLE (return_to_home w (emit CancelGoal (remove_tables ts s)))) =
             map QueueRemove removed @ [CancelGoal, Goal home_pose (nav w (goals s)), SetState IDLE]"
proof -
  obtain xs where xs: "trace (remove_tables ts s) = trace s @ map QueueRemove xs"
      "xs = [] \<longrightarrow> order_queue (remove_tables ts s) = order_queue s"
    using remove_tables_events [of ts s] by blast
  have ne: "xs \<noteq> []" using xs(2) assms by auto
  have "trace (set_state IDLE (return_to_home w (emit CancelGoal (remove_tables ts s)))) =
        trace s @ (map QueueRemove xs @ [CancelGoal, Goal home_pose (nav w (goals s)), SetState IDLE])"
    using xs(1) by simp
  then have "events_since s (set_state IDLE (return_to_home w (emit CancelGoal (remove_tables ts s)))) =
        map QueueRemove xs @ [CancelGoal, Goal home_pose (nav w (goals s)), SetState IDLE]"
    by (rule events_since_trace)
  with ne show ?thesis by blast
qed

lemma modify_loop_emptied:
  "order_queue s \<noteq> [] \<Longrightarrow> order_queue (modify_loop w script s) = [] \<Longrightarrow>
   state (modify_loop w script s) = IDLE \<and>
   goals (modify_loop w script s) = Suc (goals s) \<and>
   client_state (modify_loop w script s) = nav w (goals s) \<and>
   (\<exists>removed. removed \<noteq> [] \<and>
      events_since s (modify_loop w script s) =
        map QueueRemove removed @ [CancelGoal, Goal home_pose (nav w (goals s)), SetState IDLE])"
proof (induction script arbitrary: s)
  case Nil
  then show ?case by simp
next
  case (Cons p script)
  obtain typed answer where p: "p = (typed, answer)" by (cases p)
  let ?rm = "filter (\<lambda>n. n \<in> set (order_queue s))
               (map table_name (py_split CHR '','' (py_strip answer)))"
  note ev = emptied_by_removal [OF Cons.prems(1), of ?rm w]
  from Cons.prems Cons.IH [of s] ev show ?case
    unfolding p
    by (auto simp: Let_def split: option.splits if_splits dest: queue_add_tables)
qed

lemma drain_empty: "order_queue s = [] \<Longrightarrow> drain w s = (None, s)"
  by (simp add: drain.simps)

lemma table_poses:
  assumes t: "py_in ''table'' t" and p: "WAYPOINTS t = Some p"
  shows "p \<noteq> home_pose \<and> p \<noteq> kitchen_pose"
proof -
  from p have "in_WAYPOINTS t" by (simp add: in_WAYPOINTS_def)
  then have k: "t = ''kitchen'' \<or> t = ''home'' \<or> t = ''table1'' \<or> t = ''table2'' \<or> t = ''table3''"
    by (simp add: registry_keys)
  have nk: "\<not> py_in ''table'' ''kitchen''" by simp
  have nh: "\<not> py_in ''table'' ''home''" by simp
  from k t nk nh consider "t = ''table1''" | "t = ''table2''" | "t = ''table3''" by blast
  then show ?thesis
  proof cases
    case 1
    with p have "fst p = 12.085535049438477" by (auto simp: WAYPOINTS_def)
    then show ?thesis by (auto simp: home_pose_def kitchen_pose_def)
  next
    case 2
    with p have "fst p = -10.501110076904297" by (auto simp: WAYPOINTS_def)
    then show ?thesis by (auto simp: home_pose_def kitchen_pose_def)
  next
    case 3
    with p have "fst p = -7.50412654876709" by (auto simp: WAYPOINTS_def)
    then show ?thesis by (auto simp: home_pose_def kitchen_pose_def)
  qed
qed

lemma calm_no_table:
  assumes "list_all calm es" "py_in ''table'' t" "WAYPOINTS t = Some p"
  shows "p \<notin> set (goal_poses es)"
  using assms(1)
proof (induction es rule: goal_poses.induct)
  case (2 q st es)
  then show ?case using table_poses [OF assms(2,3)] by (auto simp: calm_def)
qed simp_all

lemma calm_no_pop: "list_all calm es \<Longrightarrow> QueuePop t \<notin> set es"
  by (induction es) (auto simp: calm_def)

lemma process_order_idle:
  "state s = IDLE \<Longrightarrow> process_order w s = deliver w (listener_start s)"
  by (simp add: process_order_def)

lemma deliver_aborted:
  "\<not> goal_result (modify_orders_while_moving w (kitchen_sent w s0)) \<Longrightarrow>
   deliver w s0 = (None, set_state IDLE (modify_orders_while_moving w (kitchen_sent w s0)))"
  by (simp add: deliver_def Let_def)

lemma deliver_unconfirmed:
  "goal_result (modify_orders_while_moving w (kitchen_sent w s0)) \<Longrightarrow>
   \<not> fst (wait_for_confirmation w ''kitchen'' (modify_orders_while_moving w (kitchen_sent w s0))) \<Longrightarrow>
   deliver w s0 =
     (None, set_state IDLE (return_to_home w
        (snd (wait_for_confirmation w ''kitchen''
           (modify_orders_while_moving w (kitchen_sent w s0))))))"
  by (simp add: deliver_def Let_def)

lemma deliver_confirmed:
  "goal_result (modify_orders_while_moving w (kitchen_sent w s0)) \<Longrightarrow>
   fst (wait_for_confirmation w ''kitchen'' (modify_orders_while_moving w (kitchen_sent w s0))) \<Longrightarrow>
   drain w (snd (wait_for_confirmation w ''kitchen''
              (modify_orders_while_moving w (kitchen_sent w s0)))) = (x, s4) \<Longrightarrow>
   deliver w s0 =
     (case x of
        Some e \<Rightarrow> (Some e, s4)
      | None \<Rightarrow> (None, set_state IDLE
                   (if state s4 = CANCELED then return_to_kitchen w s4 else return_to_home w s4)))"
  by (cases x) (simp_all add: deliver_def Let_def)

lemma deliver_emptied_calm:
  assumes "order_queue (modify_orders_while_moving w (kitchen_sent w s0)) = []"
  shows "fst (deliver w s0) = None \<and> state (snd (deliver w s0)) = IDLE \<and>
         order_queue (snd (deliver w s0)) = [] \<and>
         calm_run (modify_orders_while_moving w (kitchen_sent w s0)) (snd (deliver w s0))"
proof -
  let ?s1 = "modify_orders_while_moving w (kitchen_sent w s0)"
  let ?s3 = "snd (wait_for_confirmation w ''kitchen'' ?s1)"
  have q3: "order_queue ?s3 = []" using assms by simp
  have c3: "calm_run ?s1 ?s3" by simp
  have a: "calm_run ?s1 (set_state IDLE ?s1)" by simp
  have b: "calm_run ?s1 (set_state IDLE (return_to_home w ?s3))"
    by (rule calm_run_trans [OF calm_run_trans [OF c3 calm_return_to_home [of ?s3 w]]]) simp
  have c: "calm_run ?s1 (set_state IDLE (return_to_kitchen w ?s3))"
    by (rule calm_run_trans [OF calm_run_trans [OF c3 calm_return_to_kitchen [of ?s3 w]]]) simp
  have d: "drain w ?s3 = (None, ?s3)" by (rule drain_empty [OF q3])
  show ?thesis
  proof (cases "goal_result ?s1")
    case False
    from deliver_aborted [OF False] a assms show ?thesis by simp
  next
    case k: True
    show ?thesis
    proof (cases "fst (wait_for_confirmation w ''kitchen'' ?s1)")
      case False
      from deliver_unconfirmed [OF k False] b q3 show ?thesis by simp
    next
      case True
      from deliver_confirmed [OF k True d] b c q3 show ?thesis by simp
    qed
  qed
qed

subsection \<open>The cycle extends the trace\<close>

lemma prefix_move_to_table: "prefix (trace s) (trace (snd (move_to_table w t s)))"
  by (simp add: move_to_table_def Let_def split: option.splits)

lemma prefix_drain: "prefix (trace s) (trace (snd (drain w s)))"
proof (induction w s rule: drain.induct)
  case (1 w s)
  show ?case
  proof (cases "order_queue s")
    case Nil
    then show ?thesis by (simp add: drain.simps)
  next
    case (Cons t rest)
    let ?s1 = "emit (QueuePop t) (s\<lparr>order_queue := rest, goal_location := Some t\<rparr>)"
    obtain x y where m: "move_to_table w t ?s1 = (x, y)"
      by (cases "move_to_table w t ?s1")
    have "prefix (trace ?s1) (trace y)"
      using prefix_move_to_table [of ?s1 w t] m by simp
    then have py: "prefix (trace s) (trace y)"
      by (auto simp: prefix_def)
    show ?thesis
    proof (cases "state s = CANCELED")
      case True
      with Cons show ?thesis by (simp add: drain.simps)
    next
      case nc: False
      show ?thesis
      proof (cases x)
        case (Inl e)
        with Cons nc m py show ?thesis by (simp add: drain.simps [of w s])
      next
        case (Inr reached)
        show ?thesis
        proof (cases reached)
          case False
          have "prefix (trace y) (trace (snd (drain w y)))"
            using "1.IH"(1) [OF Cons nc m [symmetric] Inr] False by simp
          with py have "prefix (trace s) (trace (snd (drain w y)))"
            by (rule prefix_order.trans)
          with Cons nc m Inr False show ?thesis by (simp add: drain.simps [of w s])
        next
          case True
          let ?y' = "snd (wait_for_confirmation w t y)"
          have "prefix (trace y) (trace ?y')"
            by (rule calm_run_prefix) simp
          moreover have "prefix (trace ?y') (trace (snd (drain w ?y')))"
            using "1.IH"(2) [OF Cons nc m [symmetric] Inr] True by simp
          ultimately have "prefix (trace s) (trace (snd (drain w ?y')))"
            using py by (meson prefix_order.trans)
          with Cons nc m Inr True show ?thesis by (simp add: drain.simps [of w s])
        qed
      qed
    qed
  qed
qed

lemma prefix_then_calm:
  "prefix (trace a) (trace b) \<Longrightarrow> calm_run b c \<Longrightarrow> prefix (trace a) (trace c)"
  by (auto simp: calm_run_def prefix_def)

lemma prefix_deliver:
  "prefix (trace (kitchen_sent w s0)) (trace (snd (deliver w s0)))"
proof -
  let ?sk = "kitchen_sent w s0"
  let ?s1 = "modify_orders_while_moving w ?sk"
  let ?s3 = "snd (wait_for_confirmation w ''kitchen'' ?s1)"
  obtain x s4 where d: "drain w ?s3 = (x, s4)" by (cases "drain w ?s3")
  have c1: "calm_run ?sk ?s1" by (simp add: modify_orders_while_moving_def)
  have c3: "calm_run ?sk ?s3" by (rule calm_run_trans [OF c1]) simp
  have p3: "prefix (trace ?sk) (trace ?s3)" by (rule calm_run_prefix [OF c3])
  have "prefix (trace ?s3) (trace s4)" using prefix_drain [of ?s3 w] d by simp
  with p3 have p4: "prefix (trace ?sk) (trace s4)" by (rule prefix_order.trans)
  have a: "prefix (trace ?sk) (trace (set_state IDLE ?s1))"
    by (rule prefix_then_calm [OF calm_run_prefix [OF c1]]) simp
  have b: "prefix (trace ?sk) (trace (set_state IDLE (return_to_home w ?s3)))"
    by (rule prefix_then_calm [OF prefix_then_calm [OF p3 calm_return_to_home [of ?s3 w]]]) simp
  have c: "prefix (trace ?sk) (trace (set_state IDLE (return_to_home w s4)))"
    by (rule prefix_then_calm [OF prefix_then_calm [OF p4 calm_return_to_home [of s4 w]]]) simp
  have e: "prefix (trace ?sk) (trace (set_state IDLE (return_to_kitchen w s4)))"
    by (rule prefix_then_calm [OF prefix_then_calm [OF p4 calm_return_to_kitchen [of s4 w]]]) simp
  show ?thesis
  proof (cases "goal_result ?s1")
    case False
    from deliver_aborted [OF False] have "snd (deliver w s0) = set_state IDLE ?s1"
      by (simp only: snd_conv)
    with a show ?thesis by (simp only:)
  next
    case k: True
    show ?thesis
    proof (cases "fst (wait_for_confirmation w ''kitchen'' ?s1)")
      case False
      from deliver_unconfirmed [OF k False]
      have "snd (deliver w s0) = set_state IDLE (return_to_home w ?s3)"
        by (simp only: snd_conv)
      with b show ?thesis by (simp only:)
    next
      case True
      show ?thesis
      proof (cases x)
        case None
        with deliver_confirmed [OF k True d]
        have "snd (deliver w s0) = set_state IDLE
            (if state s4 = CANCELED then return_to_kitchen w s4 else return_to_home w s4)"
          by simp
        moreover have "prefix (trace ?sk) (trace (set_state IDLE
            (if state s4 = CANCELED then return_to_kitchen w s4 else return_to_home w s4)))"
        proof (cases "state s4 = CANCELED")
          case True
          show ?thesis by (subst if_P [OF True]) (rule e)
        next
          case False
          show ?thesis by (subst if_not_P [OF False]) (rule c)
        qed
        ultimately show ?thesis by (simp only:)
      next
        case (Some err)
        with deliver_confirmed [OF k True d] have "snd (deliver w s0) = s4" by simp
        with p4 show ?thesis by (simp only:)
      qed
    qed
  qed
qed

lemma process_order_first_events:
  assumes "state s = IDLE"
  shows "take 5 (events_since s (snd (process_order w s))) =
           [LockAcquire, SetState DELIVERY, LockRelease, ThreadStart Modify_orders_while_moving,
            Goal kitchen_pose (nav w (goals s))]"
proof -
  obtain es where "trace (snd (deliver w (listener_start s))) =
      trace (kitchen_sent w (listener_start s)) @ es"
    using prefix_deliver [of w "listener_start s"] by (auto simp: prefix_def)
  then show ?thesis by (simp add: events_since_def process_order_idle [OF assms])
qed

subsection \<open>Intake and additions\<close>

text \<open>
  Claim C10. An entry is accepted exactly when, stripped, it is one of \<open>1\<close>, \<open>2\<close>,
  \<open>3\<close>: validation prepends \<open>table\<close>, so an entry that already starts with
  \<open>table\<close> (as \<open>table1\<close>, looked up as \<open>tabletable1\<close>) is never a key of the
  registry. The intake loop appends the names of exactly the accepted entries of its
  batch, and \<^verbatim>\<open>add_tables\<close> those of them that were not queued before.
\<close>

theorem table_prefix_never_accepted:
  "(starts_with ''table'' (py_strip e) \<longrightarrow> \<not> in_WAYPOINTS (table_name e)) \<and>
   (in_WAYPOINTS (table_name e) \<longleftrightarrow> py_strip e \<in> {''1'', ''2'', ''3''}) \<and>
   (state s = IDLE \<and> py_lower (py_strip line) \<noteq> ''exit'' \<longrightarrow>
      order_queue (snd (get_orders_from_user line s)) =
        order_queue s @
          map table_name
            (filter (\<lambda>e. py_strip e \<in> {''1'', ''2'', ''3''})
               (py_split CHR '','' (py_strip line)))) \<and>
   order_queue (add_tables line s) =
     order_queue s @
       filter (\<lambda>n. n \<notin> set (order_queue s))
         (map table_name
            (filter (\<lambda>e. py_strip e \<in> {''1'', ''2'', ''3''})
               (py_split CHR '','' (py_strip line))))"
proof (intro conjI impI)
  assume "starts_with ''table'' (py_strip e)"
  then show "\<not> in_WAYPOINTS (table_name e)"
    using table_name_valid [of e] by (auto simp: starts_with_iff)
next
  show "in_WAYPOINTS (table_name e) \<longleftrightarrow> py_strip e \<in> {''1'', ''2'', ''3''}"
    by (rule table_name_valid)
next
  assume "state s = IDLE \<and> py_lower (py_strip line) \<noteq> ''exit''"
  then show "order_queue (snd (get_orders_from_user line s)) =
        order_queue s @
          map table_name
            (filter (\<lambda>e. py_strip e \<in> {''1'', ''2'', ''3''})
               (py_split CHR '','' (py_strip line)))"
    by (simp add: get_orders_from_user_def Let_def extend_queue_def valid_tables_eq)
next
  have "filter (\<lambda>n. in_WAYPOINTS n \<and> n \<notin> set q) (map table_name es) =
        filter (\<lambda>n. n \<notin> set q)
          (map table_name (filter (\<lambda>e. py_strip e \<in> {''1'', ''2'', ''3''}) es))" for q es
    by (induction es) (simp_all add: table_name_valid)
  then show "order_queue (add_tables line s) =
     order_queue s @
       filter (\<lambda>n. n \<notin> set (order_queue s))
         (map table_name
            (filter (\<lambda>e. py_strip e \<in> {''1'', ''2'', ''3''})
               (py_split CHR '','' (py_strip line))))"
    by (simp add: add_tables_def Let_def extend_queue_def)
qed

theorem table_prefix_never_accepted_witness:
  "starts_with ''table'' (py_strip ''table1'') \<and> \<not> in_WAYPOINTS (table_name ''table1'') \<and>
   state init_robot = IDLE \<and> py_lower (py_strip ''table1, 2'') \<noteq> ''exit'' \<and>
   order_queue (snd (get_orders_from_user ''table1, 2'' init_robot)) = [''table2''] \<and>
   order_queue (add_tables ''table1, 2'' init_robot) = [''table2'']"
proof -
  have a: "starts_with ''table'' (py_strip ''table1'')"
    by (simp add: string_defs)
  have b: "state init_robot = IDLE \<and> py_lower (py_strip ''table1, 2'') \<noteq> ''exit''"
    by (simp add: string_defs init_robot_def)
  have c: "order_queue init_robot = []"
    by (simp add: init_robot_def)
  have d: "map table_name (filter (\<lambda>e. py_strip e \<in> {''1'', ''2'', ''3''})
       (py_split CHR '','' (py_strip ''table1, 2''))) = [''table2'']"
    by (simp add: string_defs)
  from table_prefix_never_accepted [of "''table1''" init_robot "''table1, 2''"] a b c d
  show ?thesis by simp
qed

text \<open>
  Claim C8. A batch none of whose entries validates against the registry does not start
  a delivery cycle and leaves the queue and the state as they were.
\<close>

theorem invalid_batch_changes_nothing:
  assumes "\<forall>e \<in> set (py_split CHR '','' (py_strip line)). \<not> in_WAYPOINTS (table_name e)"
  shows "fst (get_orders_from_user line s) \<noteq> Started \<and>
         order_queue (snd (get_orders_from_user line s)) = order_queue s \<and>
         state (snd (get_orders_from_user line s)) = state s \<and>
         ThreadStart Process_order \<notin> set (events_since s (snd (get_orders_from_user line s)))"
proof -
  have "valid_tables (py_split CHR '','' (py_strip line)) = []"
    using assms by (simp add: valid_tables_def filter_empty_conv)
  then show ?thesis
    by (simp add: get_orders_from_user_def Let_def)
qed

theorem invalid_batch_changes_nothing_witness:
  "py_split CHR '','' (py_strip ''table99, table100'') = [''table99'', '' table100''] \<and>
   \<not> in_WAYPOINTS (table_name ''table99'') \<and> \<not> in_WAYPOINTS (table_name '' table100'') \<and>
   get_orders_from_user ''table99, table100'' init_robot =
     (Invalid, init_robot\<lparr>trace := [LockAcquire, LockRelease]\<rparr>)"
proof -
  have sp: "py_split CHR '','' (py_strip ''table99, table100'') = [''table99'', '' table100'']"
    by (simp add: string_defs)
  have h: "\<forall>e \<in> set (py_split CHR '','' (py_strip ''table99, table100'')).
             \<not> in_WAYPOINTS (table_name e)"
    unfolding sp by (simp add: registry_keys string_defs)
  have "get_orders_from_user ''table99, table100'' init_robot =
     (Invalid, init_robot\<lparr>trace := [LockAcquire, LockRelease]\<rparr>)"
    using invalid_batch_changes_nothing [OF h, of init_robot]
    by (simp add: get_orders_from_user_def Let_def init_robot_def emit_def string_defs
          valid_tables_def registry_keys)
  with h sp show ?thesis by simp
qed

text \<open>
  Claim C4. Duplicates are not suppressed: the intake loop never compares a name with the
  queue or with the rest of its batch, and \<^verbatim>\<open>add_tables\<close> compares a name with the queue
  as it was before the batch, not with the batch. The batch \<open>1,1\<close> typed at the idle
  robot queues \<open>table1\<close> twice; \<open>3,3\<close> typed at \<^verbatim>\<open>add_tables\<close> queues \<open>table3\<close> twice.
\<close>

theorem duplicates_not_suppressed:
  "order_queue (snd (get_orders_from_user ''1,1'' init_robot)) = [''table1'', ''table1''] \<and>
   order_queue (add_tables ''3,3'' (init_robot\<lparr>state := DELIVERY, order_queue := [''table1'']\<rparr>))
     = [''table1'', ''table3'', ''table3'']"
  by (simp add: get_orders_from_user_def add_tables_def Let_def init_robot_def emit_def
        string_defs valid_tables_def registry_keys extend_queue_def)

subsection \<open>The delivery cycle\<close>



text \<open>
  Claim C1. Called while the state is not \<open>IDLE\<close>, \<^verbatim>\<open>process_order\<close> only takes and
  releases the lock: the state, the queue and the goal location are as before, no thread
  is started and no goal is sent. Called in \<open>IDLE\<close>, it takes the lock, sets the state
  to \<open>DELIVERY\<close>, releases the lock and starts the listener, and the cycle is carried
  out from that robot, whose state is \<open>DELIVERY\<close>: the kitchen goal is the next event,
  sent in \<open>DELIVERY\<close>.
\<close>

theorem delivery_begins_only_from_idle:
  "(state s \<noteq> IDLE \<longrightarrow>
      fst (process_order w s) = None \<and>
      state (snd (process_order w s)) = state s \<and>
      order_queue (snd (process_order w s)) = order_queue s \<and>
      goal_location (snd (process_order w s)) = goal_location s \<and>
      events_since s (snd (process_order w s)) = [LockAcquire, LockRelease]) \<and>
   (state s = IDLE \<longrightarrow>
      process_order w s = deliver w (listener_start s) \<and>
      state (listener_start s) = DELIVERY \<and>
      order_queue (listener_start s) = order_queue s \<and>
      state (kitchen_sent w (listener_start s)) = DELIVERY \<and>
      take 5 (events_since s (snd (process_order w s))) =
        [LockAcquire, SetState DELIVERY, LockRelease, ThreadStart Modify_orders_while_moving,
         Goal kitchen_pose (nav w (goals s))])"
proof (intro conjI impI)
  assume i: "state s = IDLE"
  show "process_order w s = deliver w (listener_start s)"
    by (rule process_order_idle [OF i])
  show "take 5 (events_since s (snd (process_order w s))) =
        [LockAcquire, SetState DELIVERY, LockRelease, ThreadStart Modify_orders_while_moving,
         Goal kitchen_pose (nav w (goals s))]"
    by (rule process_order_first_events [OF i])
qed (simp_all add: process_order_def events_since_def)

theorem delivery_begins_only_from_idle_witness:
  "state at_kitchen \<noteq> IDLE \<and>
   state (snd (process_order all_well at_kitchen)) = DELIVERY \<and>
   events_since at_kitchen (snd (process_order all_well at_kitchen)) = [LockAcquire, LockRelease] \<and>
   state two_orders = IDLE \<and>
   state (listener_start two_orders) = DELIVERY \<and>
   take 5 (events_since two_orders (snd (process_order all_well two_orders)))
     = [LockAcquire, SetState DELIVERY, LockRelease, ThreadStart Modify_orders_while_moving,
        Goal kitchen_pose SUCCEEDED]"
proof -
  have a: "state at_kitchen = DELIVERY" by (simp add: at_kitchen_def init_robot_def)
  have b: "state two_orders = IDLE" by (simp add: two_orders_def init_robot_def)
  have c: "nav all_well (goals two_orders) = SUCCEEDED" by (simp add: all_well_def)
  note n = delivery_begins_only_from_idle [of at_kitchen all_well, THEN conjunct1, rule_format]
  note i = delivery_begins_only_from_idle [of two_orders all_well, THEN conjunct2, rule_format, OF b]
  have 1: "state (snd (process_order all_well at_kitchen)) = DELIVERY"
    using n a by simp
  have 2: "events_since at_kitchen (snd (process_order all_well at_kitchen)) = [LockAcquire, LockRelease]"
    using n a by simp
  have 3: "state (listener_start two_orders) = DELIVERY"
    by (rule i [THEN conjunct2, THEN conjunct1])
  have 4: "take 5 (events_since two_orders (snd (process_order all_well two_orders)))
     = [LockAcquire, SetState DELIVERY, LockRelease, ThreadStart Modify_orders_while_moving,
        Goal kitchen_pose SUCCEEDED]"
    using i [THEN conjunct2, THEN conjunct2, THEN conjunct2, THEN conjunct2] c by simp
  from a b 1 2 3 4 show ?thesis by simp
qed

subsection \<open>Cancellation\<close>

text \<open>
  Claim C2. When the handler runs while the goal location is a name containing
  \<open>table\<close>, it sets \<^verbatim>\<open>is_goal_cancel\<close> and calls \<^verbatim>\<open>return_to_kitchen\<close>: after the
  cancel request the kitchen goal is sent, and if it succeeds the home goal follows and
  the flag is false at the end; if it does not succeed, nothing follows and the flag
  stays set.
\<close>

theorem cancel_en_route_to_table:
  assumes "goal_location s = Some g" and "py_in ''table'' g"
  shows "signal_handler w s =
           emit LockRelease
             (return_to_kitchen w
                ((emit CancelGoal (set_state CANCELED (emit LockAcquire s)))
                   \<lparr>is_goal_cancel := True\<rparr>)) \<and>
         events_since s (signal_handler w s) =
           [LockAcquire, SetState CANCELED, CancelGoal, Goal kitchen_pose (nav w (goals s))] @
           (if nav w (goals s) = SUCCEEDED then [Goal home_pose (nav w (Suc (goals s)))] else []) @
           [LockRelease] \<and>
         is_goal_cancel (signal_handler w s) = (nav w (goals s) \<noteq> SUCCEEDED) \<and>
         state (signal_handler w s) = CANCELED"
proof -
  have nk: "g \<noteq> ''kitchen''" using assms(2) by auto
  have ne: "g \<noteq> []" using assms(2) by auto
  have 1: "signal_handler w s =
           emit LockRelease
             (return_to_kitchen w
                ((emit CancelGoal (set_state CANCELED (emit LockAcquire s)))
                   \<lparr>is_goal_cancel := True\<rparr>))"
    using assms nk ne by (simp add: signal_handler_def Let_def)
  have 2: "trace (signal_handler w s) = trace s @
           [LockAcquire, SetState CANCELED, CancelGoal, Goal kitchen_pose (nav w (goals s))] @
           (if nav w (goals s) = SUCCEEDED then [Goal home_pose (nav w (Suc (goals s)))] else []) @
           [LockRelease]"
    using assms nk ne by (simp add: signal_handler_trace)
  have 3: "is_goal_cancel (signal_handler w s) = (nav w (goals s) \<noteq> SUCCEEDED)"
    unfolding 1 by simp
  show ?thesis
    using 1 events_since_trace [OF 2] 3 by simp
qed

theorem cancel_en_route_to_table_witness:
  "goal_location to_table1 = Some ''table1'' \<and> py_in ''table'' ''table1'' \<and>
   events_since to_table1 (signal_handler all_well to_table1) =
     [LockAcquire, SetState CANCELED, CancelGoal, Goal kitchen_pose SUCCEEDED,
      Goal home_pose SUCCEEDED, LockRelease] \<and>
   is_goal_cancel (signal_handler all_well to_table1) = False"
proof -
  have a: "goal_location to_table1 = Some ''table1''" by (simp add: to_table1_def)
  have b: "py_in ''table'' ''table1''" by simp
  have c: "nav all_well (goals to_table1) = SUCCEEDED" "nav all_well (Suc (goals to_table1)) = SUCCEEDED"
    by (simp_all add: all_well_def)
  from cancel_en_route_to_table [OF a b, of all_well, THEN conjunct2] a b c show ?thesis by simp
qed

subsection \<open>The lock\<close>

text \<open>
  Claim C9. The lock guards the test and the write of lines 137--142, the append of line
  89 and the handler; every other write of the state and of the queue is made without
  it. A plain delivery of two orders pops both destinations (line 162) and writes
  \<open>IDLE\<close> (line 181) after the lock was released; the listener removes destinations
  (line 227) and writes \<open>IDLE\<close> (line 236) without ever taking it; and the handler
  sends its forced recovery goal, and waits for its result, while it holds the lock.
\<close>

theorem lock_discipline_broken:
  "events_since two_orders (snd (process_order all_well two_orders)) =
     [LockAcquire, SetState DELIVERY, LockRelease, ThreadStart Modify_orders_while_moving,
      Goal kitchen_pose SUCCEEDED,
      QueuePop ''table1'',
      Goal (12.085535049438477, 4.3402838706970215, 0.6417557517388287) SUCCEEDED,
      QueuePop ''table2'',
      Goal (-10.501110076904297, 5.375353813171387, 0.8235567479660424) SUCCEEDED,
      Goal home_pose SUCCEEDED,
      SetState IDLE] \<and>
   \<not> writes_under_lock False (events_since two_orders (snd (process_order all_well two_orders))) \<and>
   events_since (kitchen_sent removes_both (listener_start two_orders))
     (modify_orders_while_moving removes_both (kitchen_sent removes_both (listener_start two_orders)))
     = [QueueRemove ''table1'', QueueRemove ''table2'', CancelGoal, Goal home_pose SUCCEEDED,
        SetState IDLE] \<and>
   events_since at_kitchen (signal_handler all_well at_kitchen) =
     [LockAcquire, SetState CANCELED, CancelGoal, Goal home_pose SUCCEEDED, LockRelease] \<and>
   \<not> moves_outside_lock False (events_since at_kitchen (signal_handler all_well at_kitchen))"
proof -
  have 1: "events_since two_orders (snd (process_order all_well two_orders)) =
     [LockAcquire, SetState DELIVERY, LockRelease, ThreadStart Modify_orders_while_moving,
      Goal kitchen_pose SUCCEEDED,
      QueuePop ''table1'',
      Goal (12.085535049438477, 4.3402838706970215, 0.6417557517388287) SUCCEEDED,
      QueuePop ''table2'',
      Goal (-10.501110076904297, 5.375353813171387, 0.8235567479660424) SUCCEEDED,
      Goal home_pose SUCCEEDED,
      SetState IDLE]"
    by (simp add: two_orders_def all_well_def run_defs drain.simps)
  have 2: "events_since (kitchen_sent removes_both (listener_start two_orders))
     (modify_orders_while_moving removes_both (kitchen_sent removes_both (listener_start two_orders)))
     = [QueueRemove ''table1'', QueueRemove ''table2'', CancelGoal, Goal home_pose SUCCEEDED,
        SetState IDLE]"
    by (simp add: removes_both_def two_orders_def run_defs)
  have 3: "events_since at_kitchen (signal_handler all_well at_kitchen) =
     [LockAcquire, SetState CANCELED, CancelGoal, Goal home_pose SUCCEEDED, LockRelease]"
    by (simp add: at_kitchen_def all_well_def run_defs)
  show ?thesis
    unfolding 1 2 3 by simp
qed

subsection \<open>The confirmation gate\<close>

lemma confirm_loop_quiet:
  "quiet as \<Longrightarrow> state s \<noteq> CANCELED \<Longrightarrow> confirm_loop w as s = (Left False False, s)"
  by (induction as) (auto simp: quiet_def unanswered_def says_def Let_def split: option.splits)

lemma confirm_loop_skip:
  "quiet pre \<Longrightarrow> list_all in_window pre \<Longrightarrow> state s \<noteq> CANCELED \<Longrightarrow>
   confirm_loop w (pre @ rest) s = confirm_loop w rest s"
  by (induction pre)
     (auto simp: quiet_def unanswered_def says_def in_window_def Let_def split: option.splits)

lemma confirm_loop_late:
  "quiet pre \<Longrightarrow> state s \<noteq> CANCELED \<Longrightarrow> \<not> in_window a \<Longrightarrow>
   confirm_loop w (pre @ a # post) s = (Left False False, s)"
  by (induction pre)
     (auto simp: quiet_def unanswered_def says_def in_window_def Let_def split: option.splits)

lemma wait_for_confirmation_entry:
  "wait_for_confirmation w location s =
     (case confirm_loop w (confirm w (gates s)) (gate_entry location s) of
        (Returned, s1) \<Rightarrow> (False, s1)
      | (Left confirmed input_received, s1) \<Rightarrow>
          if \<not> input_received then
            if py_in ''table'' location
            then (False, return_to_home w (return_to_kitchen w s1))
            else (False, return_to_home w s1)
          else (confirmed, s1))"
  by (simp add: wait_for_confirmation_def gate_entry_def)

lemma gate_entry_fields [simp]:
  "state (gate_entry l s) = state s"
  "goal_location (gate_entry l s) = Some l"
  "order_queue (gate_entry l s) = order_queue s"
  "is_goal_cancel (gate_entry l s) = is_goal_cancel s"
  "goals (gate_entry l s) = goals s"
  "gates (gate_entry l s) = Suc (gates s)"
  "trace (gate_entry l s) = trace s"
  by (simp_all add: gate_entry_def)

lemma gate_window_elapsed:
  assumes "confirm_loop w (confirm w (gates s)) (gate_entry loc s) = (Left False False, gate_entry loc s)"
  shows "(py_in ''table'' loc \<longrightarrow>
            wait_for_confirmation w loc s =
              (False, return_to_home w (return_to_kitchen w (gate_entry loc s))) \<and>
            goal_poses (events_since s (snd (wait_for_confirmation w loc s))) =
              kitchen_pose #
              (if nav w (goals s) = SUCCEEDED \<and> is_goal_cancel s then [home_pose] else []) @
              [home_pose]) \<and>
         (\<not> py_in ''table'' loc \<longrightarrow>
            wait_for_confirmation w loc s = (False, return_to_home w (gate_entry loc s)) \<and>
            events_since s (snd (wait_for_confirmation w loc s)) =
              [Goal home_pose (nav w (goals s))])"
  by (simp add: wait_for_confirmation_entry assms events_since_def)

text \<open>
  Claim C6. A gate run that the window ends (the passes are used up, or the loop test
  finds the window elapsed) with no "yes" or "no", no interrupt and the state not
  \<open>CANCELED\<close>: at a location whose name contains \<open>table\<close> the gate calls
  \<^verbatim>\<open>return_to_kitchen\<close> and then \<^verbatim>\<open>return_to_home\<close> (goals: kitchen, then home, with one
  more home goal in between when the kitchen goal succeeds and \<^verbatim>\<open>is_goal_cancel\<close> was
  set) and returns false; elsewhere it calls \<^verbatim>\<open>return_to_home\<close> and returns false. A
  "no" inside the window returns false and sends no goal.
\<close>

theorem unanswered_gate_forces_recovery:
  assumes "state s \<noteq> CANCELED"
  shows "(quiet (confirm w (gates s)) \<or>
          (\<exists>pre a post. confirm w (gates s) = pre @ a # post \<and> quiet pre \<and> \<not> in_window a)
          \<longrightarrow>
            (py_in ''table'' loc \<longrightarrow>
               wait_for_confirmation w loc s =
                 (False, return_to_home w (return_to_kitchen w (gate_entry loc s))) \<and>
               goal_poses (events_since s (snd (wait_for_confirmation w loc s))) =
                 kitchen_pose #
                 (if nav w (goals s) = SUCCEEDED \<and> is_goal_cancel s then [home_pose] else []) @
                 [home_pose]) \<and>
            (\<not> py_in ''table'' loc \<longrightarrow>
               wait_for_confirmation w loc s = (False, return_to_home w (gate_entry loc s)) \<and>
               events_since s (snd (wait_for_confirmation w loc s)) =
                 [Goal home_pose (nav w (goals s))])) \<and>
         (\<forall>pre a post.
            confirm w (gates s) = pre @ a # post \<and> quiet pre \<and> list_all in_window pre \<and>
            in_window a \<and> \<not> sigint a \<and> says a ''no'' \<longrightarrow>
              wait_for_confirmation w loc s = (False, gate_entry loc s) \<and>
              events_since s (snd (wait_for_confirmation w loc s)) = [])"
proof (rule conjI)
  have st: "state (gate_entry loc s) \<noteq> CANCELED" using assms by simp
  show "quiet (confirm w (gates s)) \<or>
          (\<exists>pre a post. confirm w (gates s) = pre @ a # post \<and> quiet pre \<and> \<not> in_window a)
          \<longrightarrow>
            (py_in ''table'' loc \<longrightarrow>
               wait_for_confirmation w loc s =
                 (False, return_to_home w (return_to_kitchen w (gate_entry loc s))) \<and>
               goal_poses (events_since s (snd (wait_for_confirmation w loc s))) =
                 kitchen_pose #
                 (if nav w (goals s) = SUCCEEDED \<and> is_goal_cancel s then [home_pose] else []) @
                 [home_pose]) \<and>
            (\<not> py_in ''table'' loc \<longrightarrow>
               wait_for_confirmation w loc s = (False, return_to_home w (gate_entry loc s)) \<and>
               events_since s (snd (wait_for_confirmation w loc s)) =
                 [Goal home_pose (nav w (goals s))])"
  proof (rule impI)
    assume h: "quiet (confirm w (gates s)) \<or>
       (\<exists>pre a post. confirm w (gates s) = pre @ a # post \<and> quiet pre \<and> \<not> in_window a)"
    from h have "confirm_loop w (confirm w (gates s)) (gate_entry loc s)
                   = (Left False False, gate_entry loc s)"
    proof
      assume "quiet (confirm w (gates s))"
      then show ?thesis by (rule confirm_loop_quiet [OF _ st])
    next
      assume "\<exists>pre a post. confirm w (gates s) = pre @ a # post \<and> quiet pre \<and> \<not> in_window a"
      then obtain pre a post
        where "confirm w (gates s) = pre @ a # post" "quiet pre" "\<not> in_window a"
        by blast
      then show ?thesis using confirm_loop_late [OF _ st, of pre a w post] by simp
    qed
    then show "(py_in ''table'' loc \<longrightarrow>
               wait_for_confirmation w loc s =
                 (False, return_to_home w (return_to_kitchen w (gate_entry loc s))) \<and>
               goal_poses (events_since s (snd (wait_for_confirmation w loc s))) =
                 kitchen_pose #
                 (if nav w (goals s) = SUCCEEDED \<and> is_goal_cancel s then [home_pose] else []) @
                 [home_pose]) \<and>
            (\<not> py_in ''table'' loc \<longrightarrow>
               wait_for_confirmation w loc s = (False, return_to_home w (gate_entry loc s)) \<and>
               events_since s (snd (wait_for_confirmation w loc s)) =
                 [Goal home_pose (nav w (goals s))])"
      by (rule gate_window_elapsed)
  qed
  show "\<forall>pre a post.
            confirm w (gates s) = pre @ a # post \<and> quiet pre \<and> list_all in_window pre \<and>
            in_window a \<and> \<not> sigint a \<and> says a ''no'' \<longrightarrow>
              wait_for_confirmation w loc s = (False, gate_entry loc s) \<and>
              events_since s (snd (wait_for_confirmation w loc s)) = []"
  proof (intro allI impI)
    fix pre a post
    assume h: "confirm w (gates s) = pre @ a # post \<and> quiet pre \<and> list_all in_window pre \<and>
              in_window a \<and> \<not> sigint a \<and> says a ''no''"
    have "confirm_loop w (a # post) (gate_entry loc s) = (Left False True, gate_entry loc s)"
      using h by (auto simp: says_def in_window_def Let_def split: option.splits)
    then have l: "confirm_loop w (confirm w (gates s)) (gate_entry loc s)
                   = (Left False True, gate_entry loc s)"
      using h confirm_loop_skip [OF _ _ st, of pre w "a # post"] by simp
    have r: "wait_for_confirmation w loc s = (False, gate_entry loc s)"
      by (simp add: wait_for_confirmation_entry l)
    then show "wait_for_confirmation w loc s = (False, gate_entry loc s) \<and>
               events_since s (snd (wait_for_confirmation w loc s)) = []"
      by (simp add: events_since_def)
  qed
qed

theorem unanswered_gate_forces_recovery_witness:
  "state to_table1 \<noteq> CANCELED \<and>
   confirm nobody_answers (gates to_table1) =
     [\<lparr>elapsed = 0, sigint = False, reply = None\<rparr>,
      \<lparr>elapsed = 5, sigint = False, reply = Some ''what?''\<rparr>] @
     \<lparr>elapsed = 31, sigint = False, reply = Some ''yes''\<rparr> # [] \<and>
   quiet [\<lparr>elapsed = 0, sigint = False, reply = None\<rparr>,
          \<lparr>elapsed = 5, sigint = False, reply = Some ''what?''\<rparr>] \<and>
   \<not> in_window \<lparr>elapsed = 31, sigint = False, reply = Some ''yes''\<rparr> \<and>
   py_in ''table'' ''table2'' \<and>
   fst (wait_for_confirmation nobody_answers ''table2'' to_table1) = False \<and>
   goal_poses (events_since to_table1 (snd (wait_for_confirmation nobody_answers ''table2'' to_table1)))
     = [kitchen_pose, home_pose] \<and>
   \<not> py_in ''table'' ''kitchen'' \<and>
   events_since to_table1 (snd (wait_for_confirmation nobody_answers ''kitchen'' to_table1))
     = [Goal home_pose SUCCEEDED] \<and>
   confirm declined_late (gates to_table1) =
     [\<lparr>elapsed = 0, sigint = False, reply = None\<rparr>] @
     \<lparr>elapsed = 5, sigint = False, reply = Some '' No''\<rparr> # [] \<and>
   says \<lparr>elapsed = 5, sigint = False, reply = Some '' No''\<rparr> ''no'' \<and>
   wait_for_confirmation declined_late ''table1'' to_table1 = (False, gate_entry ''table1'' to_table1)"
proof -
  have n1: "confirm declined_late (gates to_table1) =
     [\<lparr>elapsed = 0, sigint = False, reply = None\<rparr>] @
     \<lparr>elapsed = 5, sigint = False, reply = Some '' No''\<rparr> # [] \<and>
     quiet [\<lparr>elapsed = 0, sigint = False, reply = None\<rparr>] \<and>
     list_all in_window [\<lparr>elapsed = 0, sigint = False, reply = None\<rparr>] \<and>
     in_window \<lparr>elapsed = 5, sigint = False, reply = Some '' No''\<rparr> \<and>
     \<not> sigint \<lparr>elapsed = 5, sigint = False, reply = Some '' No''\<rparr> \<and>
     says \<lparr>elapsed = 5, sigint = False, reply = Some '' No''\<rparr> ''no''"
    by (simp add: declined_late_def quiet_def unanswered_def says_def in_window_def
          CONFIRM_TIMEOUT_def string_defs)
  have a: "state to_table1 \<noteq> CANCELED" by (simp add: to_table1_def init_robot_def)
  have b: "confirm nobody_answers (gates to_table1) =
     [\<lparr>elapsed = 0, sigint = False, reply = None\<rparr>,
      \<lparr>elapsed = 5, sigint = False, reply = Some ''what?''\<rparr>] @
     \<lparr>elapsed = 31, sigint = False, reply = Some ''yes''\<rparr> # []"
    by (simp add: nobody_answers_def)
  have c: "quiet [\<lparr>elapsed = 0, sigint = False, reply = None\<rparr>,
          \<lparr>elapsed = 5, sigint = False, reply = Some ''what?''\<rparr>]"
    by (simp add: quiet_def unanswered_def says_def string_defs)
  have d: "\<not> in_window \<lparr>elapsed = 31, sigint = False, reply = Some ''yes''\<rparr>"
    by (simp add: in_window_def CONFIRM_TIMEOUT_def)
  have e: "py_in ''table'' ''table2''" "\<not> py_in ''table'' ''kitchen''" by simp_all
  have f: "nav nobody_answers (goals to_table1) = SUCCEEDED" "\<not> is_goal_cancel to_table1"
    by (simp_all add: nobody_answers_def to_table1_def init_robot_def)
  have h: "quiet (confirm nobody_answers (gates to_table1)) \<or>
          (\<exists>pre a post. confirm nobody_answers (gates to_table1) = pre @ a # post \<and> quiet pre \<and>
             \<not> in_window a)"
    using b c d by blast
  note t = unanswered_gate_forces_recovery [OF a, of nobody_answers "''table2''",
             THEN conjunct1, rule_format, OF h, THEN conjunct1, rule_format, OF e(1)]
  note k = unanswered_gate_forces_recovery [OF a, of nobody_answers "''kitchen''",
             THEN conjunct1, rule_format, OF h, THEN conjunct2, rule_format, OF e(2)]
  have 1: "fst (wait_for_confirmation nobody_answers ''table2'' to_table1) = False"
    using t [THEN conjunct1] by simp
  have 2: "goal_poses (events_since to_table1
             (snd (wait_for_confirmation nobody_answers ''table2'' to_table1)))
           = [kitchen_pose, home_pose]"
    using t [THEN conjunct2] f by simp
  have 3: "events_since to_table1 (snd (wait_for_confirmation nobody_answers ''kitchen'' to_table1))
           = [Goal home_pose SUCCEEDED]"
    using k [THEN conjunct2] f by simp
  note n = unanswered_gate_forces_recovery [OF a, of declined_late "''table1''",
             THEN conjunct2, rule_format, OF n1, THEN conjunct1]
  from a b c d e 1 2 3 n1 n show ?thesis by (simp only: simp_thms)
qed

text \<open>
  Claim C5. The test of line 346 is the gate's preemption by cancellation, but "yes" and
  "no" leave the loop by \<^verbatim>\<open>break\<close> before it: "yes" typed in the pass in which SIGINT
  arrives makes the gate return true with the state \<open>CANCELED\<close>.
\<close>

theorem yes_outruns_cancellation:
  "state at_kitchen = DELIVERY \<and>
   fst (wait_for_confirmation yes_under_sigint ''kitchen'' at_kitchen) \<and>
   state (snd (wait_for_confirmation yes_under_sigint ''kitchen'' at_kitchen)) = CANCELED"
  by (simp add: at_kitchen_def yes_under_sigint_def run_defs)

text \<open>
  Where line 346 is reached it does preempt: when SIGINT arrives in a pass inside the
  window, after quiet passes, and that pass brings no input or an input that is neither
  "yes" nor "no", the gate returns false at once, with no further pass and no recovery
  move of its own. With "yes" or "no" in that pass the gate returns the answer.
\<close>

theorem cancellation_preempts_unanswered_pass:
  assumes "state s \<noteq> CANCELED" and "confirm w (gates s) = pre @ a # post"
    and "quiet pre" and "list_all in_window pre" and "in_window a" and "sigint a"
  shows "(unanswered a \<longrightarrow>
            wait_for_confirmation w loc s = (False, signal_handler w (gate_entry loc s))) \<and>
         (says a ''yes'' \<longrightarrow>
            wait_for_confirmation w loc s = (True, signal_handler w (gate_entry loc s))) \<and>
         (says a ''no'' \<longrightarrow>
            wait_for_confirmation w loc s = (False, signal_handler w (gate_entry loc s)))"
proof -
  have st: "state (gate_entry loc s) \<noteq> CANCELED" using assms(1) by simp
  have l: "confirm_loop w (confirm w (gates s)) (gate_entry loc s) =
           confirm_loop w (a # post) (gate_entry loc s)"
    unfolding assms(2) by (rule confirm_loop_skip [OF assms(3,4) st])
  have u: "unanswered a \<Longrightarrow>
           confirm_loop w (a # post) (gate_entry loc s) = (Returned, signal_handler w (gate_entry loc s))"
    using assms(5,6)
    by (auto simp: unanswered_def says_def in_window_def Let_def split: option.splits)
  have y: "says a ''yes'' \<Longrightarrow>
           confirm_loop w (a # post) (gate_entry loc s) = (Left True True, signal_handler w (gate_entry loc s))"
    using assms(5,6)
    by (auto simp: says_def in_window_def Let_def split: option.splits)
  have n: "says a ''no'' \<Longrightarrow>
           confirm_loop w (a # post) (gate_entry loc s) = (Left False True, signal_handler w (gate_entry loc s))"
    using assms(5,6)
    by (auto simp: says_def in_window_def Let_def split: option.splits)
  show ?thesis
  proof (intro conjI impI)
    assume "unanswered a"
    from u [OF this] show "wait_for_confirmation w loc s = (False, signal_handler w (gate_entry loc s))"
      by (simp add: wait_for_confirmation_entry l del: confirm_loop.simps)
  next
    assume "says a ''yes''"
    from y [OF this] show "wait_for_confirmation w loc s = (True, signal_handler w (gate_entry loc s))"
      by (simp add: wait_for_confirmation_entry l del: confirm_loop.simps)
  next
    assume "says a ''no''"
    from n [OF this] show "wait_for_confirmation w loc s = (False, signal_handler w (gate_entry loc s))"
      by (simp add: wait_for_confirmation_entry l del: confirm_loop.simps)
  qed
qed

theorem cancellation_preempts_unanswered_pass_witness:
  "state at_kitchen \<noteq> CANCELED \<and>
   confirm silence_then_sigint (gates at_kitchen) =
     [\<lparr>elapsed = 0, sigint = False, reply = None\<rparr>] @
     \<lparr>elapsed = 5, sigint = True, reply = Some ''maybe''\<rparr> #
     [\<lparr>elapsed = 6, sigint = False, reply = Some ''yes''\<rparr>] \<and>
   quiet [\<lparr>elapsed = 0, sigint = False, reply = None\<rparr>] \<and>
   list_all in_window [\<lparr>elapsed = 0, sigint = False, reply = None\<rparr>] \<and>
   in_window \<lparr>elapsed = 5, sigint = True, reply = Some ''maybe''\<rparr> \<and>
   unanswered \<lparr>elapsed = 5, sigint = True, reply = Some ''maybe''\<rparr> \<and>
   wait_for_confirmation silence_then_sigint ''kitchen'' at_kitchen =
     (False, signal_handler silence_then_sigint (gate_entry ''kitchen'' at_kitchen))"
proof -
  have a: "state at_kitchen \<noteq> CANCELED" by (simp add: at_kitchen_def init_robot_def)
  have b: "confirm silence_then_sigint (gates at_kitchen) =
     [\<lparr>elapsed = 0, sigint = False, reply = None\<rparr>] @
     \<lparr>elapsed = 5, sigint = True, reply = Some ''maybe''\<rparr> #
     [\<lparr>elapsed = 6, sigint = False, reply = Some ''yes''\<rparr>]"
    by (simp add: silence_then_sigint_def)
  have c: "quiet [\<lparr>elapsed = 0, sigint = False, reply = None\<rparr>]"
    by (simp add: quiet_def unanswered_def says_def)
  have d: "list_all in_window [\<lparr>elapsed = 0, sigint = False, reply = None\<rparr>]"
    by (simp add: in_window_def CONFIRM_TIMEOUT_def)
  have e: "in_window \<lparr>elapsed = 5, sigint = True, reply = Some ''maybe''\<rparr>"
    by (simp add: in_window_def CONFIRM_TIMEOUT_def)
  have f: "sigint \<lparr>elapsed = 5, sigint = True, reply = Some ''maybe''\<rparr>" by simp
  have g: "unanswered \<lparr>elapsed = 5, sigint = True, reply = Some ''maybe''\<rparr>"
    by (simp add: unanswered_def says_def string_defs)
  note t = cancellation_preempts_unanswered_pass [OF a b c d e f, of "''kitchen''",
             THEN conjunct1, rule_format, OF g]
  from a b c d e g t show ?thesis by (simp only: simp_thms)
qed

text \<open>
  What the bypass costs the cycle: interrupted at the kitchen gate with "yes" typed in
  the same pass, the robot, sent home by the handler, is sent back to the kitchen and
  the cycle ends there; interrupted with nothing typed, it is sent home twice. The orders
  stay queued either way.
\<close>

lemma yes_under_sigint_ends_at_kitchen:
  "goal_poses (events_since two_orders (snd (process_order yes_under_sigint two_orders)))
     = [kitchen_pose, home_pose, kitchen_pose] \<and>
   order_queue (snd (process_order yes_under_sigint two_orders)) = [''table1'', ''table2''] \<and>
   goal_poses (events_since two_orders (snd (process_order silence_under_sigint two_orders)))
     = [kitchen_pose, home_pose, home_pose] \<and>
   order_queue (snd (process_order silence_under_sigint two_orders)) = [''table1'', ''table2'']"
  by (simp add: two_orders_def yes_under_sigint_def silence_under_sigint_def run_defs drain.simps)

subsection \<open>Service order\<close>

lemma pops_append: "pops (a @ b) = pops a @ pops b"
  by (induction a rule: pops.induct) simp_all

lemma pops_calm: "list_all calm es \<Longrightarrow> pops es = []"
  by (induction es rule: pops.induct) (simp_all add: calm_def)

lemma move_to_table_events:
  "\<exists>es. trace (snd (move_to_table w t s)) = trace s @ es \<and> pops es = []"
  by (simp add: move_to_table_def Let_def split: option.splits)

lemma gate_events:
  "\<exists>es. trace (snd (wait_for_confirmation w t s)) = trace s @ es \<and> pops es = []"
  using calm_wait_for_confirmation [of s w t] by (auto simp: calm_run_def pops_calm)

lemma drain_events:
  "\<exists>es. trace (snd (drain w s)) = trace s @ es \<and> prefix (pops es) (order_queue s)"
proof (induction w s rule: drain.induct)
  case (1 w s)
  show ?case
  proof (cases "order_queue s")
    case Nil
    then show ?thesis by (simp add: drain.simps)
  next
    case (Cons t rest)
    let ?s1 = "emit (QueuePop t) (s\<lparr>order_queue := rest, goal_location := Some t\<rparr>)"
    obtain x y where m: "move_to_table w t ?s1 = (x, y)"
      by (cases "move_to_table w t ?s1")
    obtain es1 where es1: "trace y = trace ?s1 @ es1" "pops es1 = []"
      using move_to_table_events [of w t ?s1] m by auto
    have qy: "order_queue y = rest"
      using queue_move_to_table [of w t ?s1] m by simp
    have ty: "trace y = trace s @ QueuePop t # es1" using es1 by simp
    show ?thesis
    proof (cases "state s = CANCELED")
      case True
      with Cons show ?thesis by (simp add: drain.simps)
    next
      case nc: False
      show ?thesis
      proof (cases x)
        case (Inl e)
        with Cons nc m ty es1 show ?thesis by (simp add: drain.simps [of w s])
      next
        case (Inr reached)
        show ?thesis
        proof (cases reached)
          case False
          obtain es where es: "trace (snd (drain w y)) = trace y @ es" "prefix (pops es) (order_queue y)"
            using "1.IH"(1) [OF Cons nc m [symmetric] Inr] False by auto
          have "trace (snd (drain w y)) = trace s @ (QueuePop t # es1 @ es)"
            using es ty by simp
          moreover have "prefix (pops (QueuePop t # es1 @ es)) (order_queue s)"
            using es es1 qy Cons by (simp add: pops_append)
          ultimately show ?thesis
            using Cons nc m Inr False by (auto simp: drain.simps [of w s])
        next
          case True
          let ?y' = "snd (wait_for_confirmation w t y)"
          obtain es2 where es2: "trace ?y' = trace y @ es2" "pops es2 = []"
            using gate_events [of w t y] by auto
          obtain es where es: "trace (snd (drain w ?y')) = trace ?y' @ es"
              "prefix (pops es) (order_queue ?y')"
            using "1.IH"(2) [OF Cons nc m [symmetric] Inr] True by auto
          have "trace (snd (drain w ?y')) = trace s @ (QueuePop t # es1 @ es2 @ es)"
            using es es2 ty by simp
          moreover have "prefix (pops (QueuePop t # es1 @ es2 @ es)) (order_queue s)"
            using es es1 es2 qy Cons by (simp add: pops_append)
          ultimately show ?thesis
            using Cons nc m Inr True by (auto simp: drain.simps [of w s])
        qed
      qed
    qed
  qed
qed

lemma drain_serves_fifo:
  "prefix (pops (events_since s (snd (drain w s)))) (order_queue s)"
  using drain_events [of w s] by (auto simp: events_since_def)

lemma remove_tables_queue:
  "order_queue (remove_tables ts s) = fold remove1 ts (order_queue s)"
  by (induction ts arbitrary: s) (simp_all add: remove1_idem)

lemma removed_once_is_gone:
  "distinct q \<Longrightarrow> t \<in> set ts \<Longrightarrow> t \<notin> set (fold remove1 ts q)"
proof (induction ts arbitrary: q)
  case Nil
  then show ?case by simp
next
  case (Cons u ts)
  have sub: "set (fold remove1 xs r) \<subseteq> set r" for xs r
  proof (induction xs arbitrary: r)
    case Nil
    show ?case by simp
  next
    case (Cons a xs)
    have "set (fold remove1 xs (remove1 a r)) \<subseteq> set (remove1 a r)" by (rule Cons.IH)
    also have "\<dots> \<subseteq> set r" by (rule set_remove1_subset)
    finally show ?case by simp
  qed
  show ?case
  proof (cases "t = u")
    case True
    then have "t \<notin> set (remove1 u q)" using Cons.prems(1) by simp
    then show ?thesis using sub [of ts "remove1 u q"] by auto
  next
    case False
    then show ?thesis using Cons by simp
  qed
qed

text \<open>
  Claim C3. The destinations popped by the delivery loop are a prefix of the queue as the
  loop found it (\<open>drain_serves_fifo\<close>), and a removal deletes a destination from a queue
  without duplicates (\<open>removed_once_is_gone\<close>). But the queue can hold a destination
  twice, and \<^verbatim>\<open>list.remove\<close> deletes one occurrence: after the batch \<open>1,1\<close> and the
  removal of \<open>1\<close> at the listener, \<open>table1\<close> is popped and visited all the same.
\<close>

theorem removed_destination_still_visited:
  "order_queue ordered_twice = [''table1'', ''table1''] \<and>
   WAYPOINTS ''table1'' = Some (12.085535049438477, 4.3402838706970215, 0.6417557517388287) \<and>
   process_order removes_one ordered_twice =
     (None,
      \<lparr>state = IDLE, goal_location = Some ''table1'', order_queue = [],
       is_goal_cancel = False, client_state = SUCCEEDED, goals = 3, gates = 2,
       trace = [LockAcquire, QueueExtend [''table1'', ''table1''], LockRelease,
                ThreadStart Process_order,
                LockAcquire, SetState DELIVERY, LockRelease,
                ThreadStart Modify_orders_while_moving,
                Goal kitchen_pose SUCCEEDED,
                QueueRemove ''table1'',
                QueuePop ''table1'',
                Goal (12.085535049438477, 4.3402838706970215, 0.6417557517388287) SUCCEEDED,
                Goal home_pose SUCCEEDED,
                SetState IDLE]\<rparr>)"
  by (simp add: ordered_twice_def removes_one_def run_defs drain.simps)

end
